theory Spec2Isabelle
  imports Complex_Main "HOL-Library.Sublist" "HOL-Library.Multiset"
begin

section \<open>Strings and POSIX paths\<close>

text \<open>
  The development models the program on a POSIX build of Python: \<open>os.path\<close> is
  \<open>posixpath\<close> and \<open>os.sep\<close> is \<open>/\<close>. Strings are byte strings, a Python string in
  UTF-8. The library functions below follow the CPython sources of \<open>posixpath\<close> and
  \<open>pathlib\<close>.
\<close>

type_synonym path = string

definition sep :: string where
  "sep = ''/''"

definition startswith :: "string \<Rightarrow> string \<Rightarrow> bool" where
  "startswith s p = (take (length p) s = p)"

definition endswith :: "string \<Rightarrow> string \<Rightarrow> bool" where
  "endswith s p = (length p \<le> length s \<and> drop (length s - length p) s = p)"

text \<open>\<open>s.split('/')\<close>: never empty, \<open>''.split('/') == ['']\<close>.\<close>

fun split_sep :: "string \<Rightarrow> string list" where
  "split_sep [] = [[]]"
| "split_sep (c # cs) =
     (if c = CHR ''/'' then [] # split_sep cs
      else (case split_sep cs of [] \<Rightarrow> [[c]] | w # ws \<Rightarrow> (c # w) # ws))"

text \<open>\<open>'/'.join(comps)\<close>.\<close>

fun join_sep :: "string list \<Rightarrow> string" where
  "join_sep [] = []"
| "join_sep [x] = x"
| "join_sep (x # y # ys) = x @ ''/'' @ join_sep (y # ys)"

definition to_lower :: "char \<Rightarrow> char" where
  "to_lower c =
     (case map_of (zip ''ABCDEFGHIJKLMNOPQRSTUVWXYZ'' ''abcdefghijklmnopqrstuvwxyz'') c of
        None \<Rightarrow> c | Some d \<Rightarrow> d)"

text \<open>
  \<open>str.lower\<close> on a string in UTF-8: the letters A to Z, and the KELVIN SIGN (U+212A,
  the bytes E2 84 AA), whose lower case is the letter k. No other character has a lower
  case made of ASCII characters, so no other one matters for membership in a set of
  ASCII extensions; the bytes of every other character are kept.
\<close>

fun lower :: "string \<Rightarrow> string" where
  "lower (a # b # c # s) =
     (if a = CHR 0xE2 \<and> b = CHR 0x84 \<and> c = CHR 0xAA then CHR ''k'' # lower s
      else to_lower a # lower (b # c # s))"
| "lower (a # s) = to_lower a # lower s"
| "lower [] = []"

text \<open>\<open>os.path.join(a, b)\<close> for two arguments.\<close>

definition join :: "path \<Rightarrow> path \<Rightarrow> path" where
  "join a b =
     (if startswith b ''/'' then b
      else if a = [] \<or> endswith a ''/'' then a @ b
      else a @ ''/'' @ b)"

text \<open>
  \<open>posixpath.normpath\<close>: the loop over the components keeps the list \<open>new_comps\<close>;
  \<open>ini\<close> is \<open>initial_slashes\<close> (0, 1 or 2).
\<close>

fun norm_comps :: "nat \<Rightarrow> string list \<Rightarrow> string list \<Rightarrow> string list" where
  "norm_comps ini new_comps [] = new_comps"
| "norm_comps ini new_comps (c # comps) =
     (if c = [] \<or> c = ''.'' then norm_comps ini new_comps comps
      else if c \<noteq> ''..'' \<or> (ini = 0 \<and> new_comps = [])
                \<or> (new_comps \<noteq> [] \<and> last new_comps = ''..'')
        then norm_comps ini (new_comps @ [c]) comps
      else if new_comps \<noteq> [] then norm_comps ini (butlast new_comps) comps
      else norm_comps ini new_comps comps)"

definition normpath :: "path \<Rightarrow> path" where
  "normpath p =
     (if p = [] then ''.''
      else
        let ini = (if startswith p ''//'' \<and> \<not> startswith p ''///'' then 2
                   else if startswith p ''/'' then 1 else 0);
            q = replicate ini (CHR ''/'') @ join_sep (norm_comps ini [] (split_sep p))
        in if q = [] then ''.'' else q)"

text \<open>
  \<open>os.path.abspath\<close>: a relative path is joined to \<open>os.getcwd()\<close>, which raises when the
  working directory has been removed; \<open>None\<close> is that exception.
\<close>

definition abspath :: "path option \<Rightarrow> path \<Rightarrow> path option" where
  "abspath cwd p =
     (if startswith p ''/'' then Some (normpath p)
      else (case cwd of None \<Rightarrow> None | Some d \<Rightarrow> Some (normpath (join d p))))"

text \<open>
  \<open>os.path.commonpath([a, b])\<close>: raises \<open>ValueError\<close> (here \<open>None\<close>) when one path is
  absolute and the other is not; otherwise the components other than \<open>''\<close> and \<open>'.'\<close>
  are compared, and the longest common prefix of the two component lists is joined
  again (the source's scan of \<open>min\<close> against \<open>max\<close> computes, for two lists, exactly
  their longest common prefix).
\<close>

fun common_prefix :: "string list \<Rightarrow> string list \<Rightarrow> string list" where
  "common_prefix (x # xs) (y # ys) = (if x = y then x # common_prefix xs ys else [])"
| "common_prefix _ _ = []"

definition path_comps :: "path \<Rightarrow> string list" where
  "path_comps p = filter (\<lambda>c. c \<noteq> [] \<and> c \<noteq> ''.'') (split_sep p)"

definition commonpath :: "path \<Rightarrow> path \<Rightarrow> path option" where
  "commonpath a b =
     (if startswith a ''/'' \<noteq> startswith b ''/'' then None
      else Some ((if startswith a ''/'' then ''/'' else []) @
                 join_sep (common_prefix (path_comps a) (path_comps b))))"

text \<open>
  \<open>pathlib.PurePosixPath(p).suffix\<close>: the part of the final component from its last dot,
  unless that dot is the first or the last character of the component.
\<close>

definition path_name :: "path \<Rightarrow> string" where
  "path_name p = (case rev (path_comps p) of [] \<Rightarrow> [] | n # _ \<Rightarrow> n)"

definition suffix_of :: "path \<Rightarrow> string" where
  "suffix_of p =
     (let name = path_name p;
          ext = rev (takeWhile (\<lambda>c. c \<noteq> CHR ''.'') (rev name))
      in if CHR ''.'' \<in> set name \<and> ext \<noteq> [] \<and> Suc (length ext) < length name
         then CHR ''.'' # ext else [])"


section \<open>The host: directory tree, clock and environment\<close>

text \<open>
  Exceptions are values. Every exception below is caught by the program as
  \<open>Exception\<close>. \<open>str_exn\<close> stands for the text \<open>str(e)\<close>: it gives an errno text only,
  where CPython appends the file name and the errno depends on the cause of the failure.
  No statement below depends on the text of a message.
\<close>

datatype exn =
    FileNotFoundError | NotADirectoryError | IsADirectoryError
  | PermissionError | DirectoryNotEmpty | ValueError | TrashError

fun str_exn :: "exn \<Rightarrow> string" where
  "str_exn FileNotFoundError = ''[Errno 2] No such file or directory''"
| "str_exn NotADirectoryError = ''[Errno 20] Not a directory''"
| "str_exn IsADirectoryError = ''[Errno 21] Is a directory''"
| "str_exn PermissionError = ''[Errno 13] Permission denied''"
| "str_exn DirectoryNotEmpty = ''[Errno 39] Directory not empty''"
| "str_exn ValueError = ''Can't mix absolute and relative paths''"
| "str_exn TrashError = ''send2trash failed''"

text \<open>
  A file system is a finite tree. Each node has its name, the result of \<open>os.stat\<close> on it
  (\<open>st_mtime\<close> and \<open>st_size\<close>; \<open>None\<close> when \<open>os.stat\<close> raises, as for a dangling link or
  a path that cannot be searched) and whether the entry may be unlinked. A directory
  also says whether it can be listed. Time stamps are real numbers (Python's floats,
  idealised). Symbolic links are left out of the model.
\<close>

type_synonym stat = "real \<times> int"

datatype node =
    File string "stat option" bool
  | Dir string "stat option" bool bool "node list"

fun node_name :: "node \<Rightarrow> string" where
  "node_name (File nm st rm) = nm"
| "node_name (Dir nm st rm ls es) = nm"

fun node_stat :: "node \<Rightarrow> stat option" where
  "node_stat (File nm st rm) = st"
| "node_stat (Dir nm st rm ls es) = st"

fun is_dir :: "node \<Rightarrow> bool" where
  "is_dir (File nm st rm) = False"
| "is_dir (Dir nm st rm ls es) = True"

fun child :: "node list \<Rightarrow> string \<Rightarrow> node option" where
  "child [] c = None"
| "child (n # ns) c = (if node_name n = c then Some n else child ns c)"

fun lookup :: "node \<Rightarrow> string list \<Rightarrow> node option" where
  "lookup n [] = Some n"
| "lookup (File nm st rm) (c # cs) = None"
| "lookup (Dir nm st rm ls es) (c # cs) =
     (case child es c of None \<Rightarrow> None | Some m \<Rightarrow> lookup m cs)"

text \<open>
  Path resolution as the kernel does it: component by component from the position \<open>pos\<close>
  (the names from the root), where every intermediate position must be a directory,
  \<open>.\<close> and empty components stay, \<open>..\<close> goes up.
\<close>

fun resolve_from :: "node \<Rightarrow> string list \<Rightarrow> string list \<Rightarrow> string list option" where
  "resolve_from r pos [] = Some pos"
| "resolve_from r pos (c # cs) =
     (case lookup r pos of
        Some (Dir nm st rm ls es) \<Rightarrow>
          if c = [] \<or> c = ''.'' then resolve_from r pos cs
          else if c = ''..'' then resolve_from r (butlast pos) cs
          else (case child es c of
                  None \<Rightarrow> None
                | Some m \<Rightarrow> resolve_from r (pos @ [c]) cs)
      | _ \<Rightarrow> None)"

record world =
  root :: node
  cwd :: "path option"
  now :: real
  system :: string
  environ :: "string \<Rightarrow> string option"
  userhome :: "path option"
  tempdir :: path
  trash :: "(path \<times> node) list"

text \<open>
  \<open>root\<close> is the directory tree, \<open>cwd\<close> is \<open>os.getcwd()\<close> (\<open>None\<close> when it raises), \<open>now\<close>
  is the reading of \<open>time.time()\<close> during the call, \<open>system\<close> is \<open>platform.system()\<close>,
  \<open>userhome\<close> is the home directory \<open>expanduser\<close> finds (\<open>HOME\<close>, else the password
  database), \<open>tempdir\<close> is \<open>tempfile.gettempdir()\<close>, and \<open>trash\<close> collects what
  \<open>send2trash\<close> has moved away.
\<close>

definition resolve :: "world \<Rightarrow> path \<Rightarrow> string list option" where
  "resolve w p =
     (if p = [] then None
      else if startswith p ''/'' then resolve_from (root w) [] (split_sep p)
      else (case cwd w of
              None \<Rightarrow> None
            | Some d \<Rightarrow>
                (case resolve_from (root w) [] (split_sep d) of
                   None \<Rightarrow> None
                 | Some pos \<Rightarrow> resolve_from (root w) pos (split_sep p))))"

definition node_at :: "world \<Rightarrow> path \<Rightarrow> node option" where
  "node_at w p = (case resolve w p of None \<Rightarrow> None | Some cs \<Rightarrow> lookup (root w) cs)"

definition os_stat :: "world \<Rightarrow> path \<Rightarrow> exn + stat" where
  "os_stat w p =
     (case node_at w p of
        None \<Rightarrow> Inl FileNotFoundError
      | Some n \<Rightarrow> (case node_stat n of None \<Rightarrow> Inl PermissionError | Some st \<Rightarrow> Inr st))"

text \<open>\<open>os.path.exists\<close> and \<open>os.path.isdir\<close> call \<open>os.stat\<close> and answer False when it raises.\<close>

definition exists :: "world \<Rightarrow> path \<Rightarrow> bool" where
  "exists w p = (case os_stat w p of Inl e \<Rightarrow> False | Inr st \<Rightarrow> True)"

definition isdir :: "world \<Rightarrow> path \<Rightarrow> bool" where
  "isdir w p =
     (case node_at w p of
        None \<Rightarrow> False
      | Some n \<Rightarrow> is_dir n \<and> node_stat n \<noteq> None)"

definition getmtime :: "world \<Rightarrow> path \<Rightarrow> exn + real" where
  "getmtime w p = (case os_stat w p of Inl e \<Rightarrow> Inl e | Inr (mtime, sz) \<Rightarrow> Inr mtime)"

definition getsize :: "world \<Rightarrow> path \<Rightarrow> exn + int" where
  "getsize w p = (case os_stat w p of Inl e \<Rightarrow> Inl e | Inr (mtime, sz) \<Rightarrow> Inr sz)"

text \<open>Removing the entry at a position of the tree.\<close>

fun remove_at :: "node \<Rightarrow> string list \<Rightarrow> node" where
  "remove_at (Dir nm st rm ls es) [c] = Dir nm st rm ls (filter (\<lambda>n. node_name n \<noteq> c) es)"
| "remove_at (Dir nm st rm ls es) (c # c' # cs) =
     Dir nm st rm ls (map (\<lambda>n. if node_name n = c then remove_at n (c' # cs) else n) es)"
| "remove_at n cs = n"

definition os_remove :: "world \<Rightarrow> path \<Rightarrow> exn + world" where
  "os_remove w p =
     (case resolve w p of
        None \<Rightarrow> Inl FileNotFoundError
      | Some cs \<Rightarrow>
          (case lookup (root w) cs of
             None \<Rightarrow> Inl FileNotFoundError
           | Some (Dir nm st rm ls es) \<Rightarrow> Inl IsADirectoryError
           | Some (File nm st rm) \<Rightarrow>
               if rm then Inr (w\<lparr>root := remove_at (root w) cs\<rparr>) else Inl PermissionError))"

definition os_rmdir :: "world \<Rightarrow> path \<Rightarrow> exn + world" where
  "os_rmdir w p =
     (case resolve w p of
        None \<Rightarrow> Inl FileNotFoundError
      | Some cs \<Rightarrow>
          (case lookup (root w) cs of
             None \<Rightarrow> Inl FileNotFoundError
           | Some (File nm st rm) \<Rightarrow> Inl NotADirectoryError
           | Some (Dir nm st rm ls es) \<Rightarrow>
               if es \<noteq> [] then Inl DirectoryNotEmpty
               else if rm \<and> cs \<noteq> [] then Inr (w\<lparr>root := remove_at (root w) cs\<rparr>)
               else Inl PermissionError))"

text \<open>
  \<open>send2trash\<close> is a library outside the repository: it moves the file or directory
  tree at the path to the trash, or raises.
\<close>

definition send2trash :: "world \<Rightarrow> path \<Rightarrow> exn + world" where
  "send2trash w p =
     (case resolve w p of
        None \<Rightarrow> Inl TrashError
      | Some cs \<Rightarrow>
          (case lookup (root w) cs of
             None \<Rightarrow> Inl TrashError
           | Some n \<Rightarrow>
               if cs \<noteq> [] \<and> (case n of File nm st rm \<Rightarrow> rm | Dir nm st rm ls es \<Rightarrow> rm)
               then Inr (w\<lparr>root := remove_at (root w) cs, trash := trash w @ [(p, n)]\<rparr>)
               else Inl TrashError))"

text \<open>
  \<open>os.walk(top)\<close>, top-down and bottom-up: the triples \<open>(root, dirs, files)\<close> in the order
  the generator yields them. A directory that cannot be listed, and a \<open>top\<close> that is not
  a directory, yield nothing (\<open>onerror\<close> is not set).
\<close>

fun walk_node :: "path \<Rightarrow> node \<Rightarrow> (path \<times> string list \<times> string list) list" where
  "walk_node topdir (File nm st rm) = []"
| "walk_node topdir (Dir nm st rm ls es) =
     (if \<not> ls then []
      else (topdir, map node_name (filter is_dir es),
                 map node_name (filter (\<lambda>n. \<not> is_dir n) es))
           # concat (map (\<lambda>n. walk_node (join topdir (node_name n)) n) (filter is_dir es)))"

fun walk_node_bottomup :: "path \<Rightarrow> node \<Rightarrow> (path \<times> string list \<times> string list) list" where
  "walk_node_bottomup topdir (File nm st rm) = []"
| "walk_node_bottomup topdir (Dir nm st rm ls es) =
     (if \<not> ls then []
      else concat (map (\<lambda>n. walk_node_bottomup (join topdir (node_name n)) n) (filter is_dir es))
           @ [(topdir, map node_name (filter is_dir es),
                    map node_name (filter (\<lambda>n. \<not> is_dir n) es))])"

definition os_walk :: "world \<Rightarrow> path \<Rightarrow> (path \<times> string list \<times> string list) list" where
  "os_walk w topdir = (case node_at w topdir of None \<Rightarrow> [] | Some n \<Rightarrow> walk_node topdir n)"

definition os_walk_bottomup :: "world \<Rightarrow> path \<Rightarrow> (path \<times> string list \<times> string list) list" where
  "os_walk_bottomup w topdir =
     (case node_at w topdir of None \<Rightarrow> [] | Some n \<Rightarrow> walk_node_bottomup topdir n)"

text \<open>The paths \<open>os.path.join(root, f)\<close> of the files of a walk, in the order of the loops.\<close>

definition walk_files :: "world \<Rightarrow> path \<Rightarrow> path list" where
  "walk_files w topdir =
     concat (map (\<lambda>(r, dirs, files). map (join r) files) (os_walk w topdir))"

text \<open>
  \<open>os.path.expanduser\<close> on \<open>~\<close> and \<open>~/...\<close>, the only forms the program uses: without a
  home directory the path is returned unchanged.
\<close>

definition rstrip_sep :: "string \<Rightarrow> string" where
  "rstrip_sep s = rev (dropWhile (\<lambda>c. c = CHR ''/'') (rev s))"

definition expanduser :: "world \<Rightarrow> path \<Rightarrow> path" where
  "expanduser w p =
     (if p = ''~'' \<or> startswith p ''~/'' then
        (case userhome w of
           None \<Rightarrow> p
         | Some h \<Rightarrow> (let q = rstrip_sep h @ drop 1 p in if q = [] then ''/'' else q))
      else p)"


section \<open>Scanner (\<open>modules/scanner.py\<close>)\<close>

text \<open>
  The attributes of a \<open>Scanner\<close> object that \<open>__init__\<close> sets once. The dictionary
  \<open>_found\<close> is the state of a scan and is passed explicitly; \<open>self.system\<close> is
  \<open>system\<close> of the host.
\<close>

record scanner =
  extra_dirs :: "path list"
  junk_extensions :: "string set"
  potentially_dangerous_extensions :: "string set"
  suspicious_script_extensions :: "string set"
  temp_dirs :: "path list"
  browser_cache_dirs :: "path list"
  download_dirs :: "path list"
  whitelist_paths :: "path set"

text \<open>Python dictionaries keep insertion order: a dictionary is an association list.\<close>

type_synonym 'v dict = "(string \<times> 'v) list"

fun dict_set :: "'v dict \<Rightarrow> string \<Rightarrow> 'v \<Rightarrow> 'v dict" where
  "dict_set [] k v = [(k, v)]"
| "dict_set ((k', v') # d) k v = (if k' = k then (k, v) # d else (k', v') # dict_set d k v)"

definition dict_get :: "'v dict \<Rightarrow> string \<Rightarrow> 'v option" where
  "dict_get d k = map_of d k"

text \<open>\<open>os.environ.get(k, default)\<close>, and \<open>os.path.join\<close> with several arguments.\<close>

definition env_get :: "world \<Rightarrow> string \<Rightarrow> string \<Rightarrow> string" where
  "env_get w k dflt = (case environ w k of None \<Rightarrow> dflt | Some v \<Rightarrow> v)"

definition joins :: "path \<Rightarrow> path list \<Rightarrow> path" where
  "joins a bs = foldl join a bs"

definition backslash :: string where
  "backslash = [CHR 0x5C]"

text \<open>The value of \<open>user\<close> when \<open>if user:\<close> holds: set and not empty.\<close>

definition env_nonempty :: "world \<Rightarrow> string \<Rightarrow> string option" where
  "env_nonempty w k = (case environ w k of None \<Rightarrow> None | Some v \<Rightarrow> if v = [] then None else Some v)"

text \<open>
  \<open>Scanner._get_temp_dirs\<close>. Nothing in its \<open>try\<close> block raises in this model, so the
  \<open>except\<close> branch does not appear.
\<close>

definition Scanner_get_temp_dirs :: "world \<Rightarrow> path list \<Rightarrow> path list" where
  "Scanner_get_temp_dirs w extra =
     (let s = system w;
          dirs =
            (if s = ''Windows'' then
               [tempdir w, join (env_get w ''WINDIR'' (''C:'' @ backslash @ ''Windows'')) ''Temp'']
               @ (case env_nonempty w ''USERPROFILE'' of
                    None \<Rightarrow> []
                  | Some user \<Rightarrow> [joins user [''AppData'', ''Local'', ''Temp'']])
             else if s = ''Linux'' then [''/tmp'', expanduser w ''~/.cache'']
             else if s = ''Darwin'' then [''/tmp'', expanduser w ''~/Library/Caches'']
             else [])
      in filter (exists w) (dirs @ extra))"

definition Scanner_get_browser_cache_dirs :: "world \<Rightarrow> path list" where
  "Scanner_get_browser_cache_dirs w =
     (let s = system w;
          home = expanduser w ''~'';
          dirs =
            (if s = ''Windows'' then
               (case env_nonempty w ''LOCALAPPDATA'' of
                  None \<Rightarrow> []
                | Some local \<Rightarrow>
                    [joins local [''Google'', ''Chrome'', ''User Data'', ''Default'', ''Cache''],
                     joins local [''Microsoft'', ''Edge'', ''User Data'', ''Default'', ''Cache''],
                     joins local [''Mozilla'', ''Firefox'', ''Profiles'']])
             else if s = ''Linux'' then
               [joins home [''.cache'', ''google-chrome''],
                joins home [''.cache'', ''chromium''],
                joins home [''.cache'', ''mozilla'']]
             else if s = ''Darwin'' then
               [joins home [''Library'', ''Caches'', ''Google'', ''Chrome''],
                joins home [''Library'', ''Caches'', ''Firefox'']]
             else [])
      in filter (exists w) dirs)"

definition Scanner_get_download_dirs :: "world \<Rightarrow> path list" where
  "Scanner_get_download_dirs w =
     (let s = system w;
          home = expanduser w ''~'';
          candidates =
            (if s = ''Windows'' then
               (case env_nonempty w ''USERPROFILE'' of
                  None \<Rightarrow> []
                | Some user \<Rightarrow> [join user ''Downloads''])
             else [join home ''Downloads''])
      in filter (exists w) candidates)"

text \<open>
  The configured whitelist, before the final comprehension: the set \<open>wl\<close> of
  \<open>_get_whitelist_paths\<close>, the same in \<open>Scanner\<close> and in \<open>Optimizer\<close>.
\<close>

definition configured_whitelist :: "world \<Rightarrow> path set" where
  "configured_whitelist w =
     (let s = system w in
      if s = ''Windows'' then
        {env_get w ''WINDIR'' (''C:'' @ backslash @ ''Windows''),
         join (env_get w ''SYSTEMDRIVE'' (''C:'' @ backslash)) ''Program Files'',
         join (env_get w ''SYSTEMDRIVE'' (''C:'' @ backslash)) ''Program Files (x86)''}
        \<union> (case env_nonempty w ''USERPROFILE'' of
              None \<Rightarrow> {}
            | Some user \<Rightarrow>
                {joins user [''AppData'', ''Roaming''],
                 joins user [''AppData'', ''Local'', ''Programs'']})
      else
        {''/'', ''/bin'', ''/sbin'', ''/usr'', ''/usr/bin'', ''/usr/sbin'',
         ''/lib'', ''/lib64'', ''/etc'', ''/var''}
        \<union> (if s = ''Darwin'' then {''/System'', ''/Applications''} else {}))"

text \<open>
  \<open>{os.path.abspath(p) for p in wl if p}\<close>: an exception of \<open>abspath\<close> leaves the
  constructor, so the result is \<open>None\<close> then.
\<close>

definition Scanner_get_whitelist_paths :: "world \<Rightarrow> path set option" where
  "Scanner_get_whitelist_paths w =
     (let wl = {p \<in> configured_whitelist w. p \<noteq> []} in
      if \<exists>p \<in> wl. abspath (cwd w) p = None then None
      else Some ((\<lambda>p. the (abspath (cwd w) p)) ` wl))"

definition Scanner_init :: "world \<Rightarrow> path list \<Rightarrow> scanner option" where
  "Scanner_init w extra =
     (case Scanner_get_whitelist_paths w of
        None \<Rightarrow> None
      | Some wl \<Rightarrow>
          Some \<lparr>extra_dirs = extra,
                junk_extensions =
                  {''.tmp'', ''.log'', ''.bak'', ''.old'', ''.crdownload'', ''.part'', ''.cache'',
                   ''.swp'', ''.~'', ''.trashinfo''},
                potentially_dangerous_extensions =
                  {''.exe'', ''.msi'', ''.bat'', ''.cmd'', ''.ps1'', ''.vbs'', ''.scr'', ''.jar'',
                   ''.apk'', ''.dmg'', ''.pkg''},
                suspicious_script_extensions = {''.sh'', ''.py'', ''.pl'', ''.rb''},
                temp_dirs = Scanner_get_temp_dirs w extra,
                browser_cache_dirs = Scanner_get_browser_cache_dirs w,
                download_dirs = Scanner_get_download_dirs w,
                whitelist_paths = wl\<rparr>)"

definition initial_found :: "path list dict" where
  "initial_found =
     [(''junk'', []), (''large'', []), (''suspicious'', []), (''harmful'', []), (''skipped'', [])]"

text \<open>
  \<open>Scanner._is_under_whitelist\<close>: the path is normalised by \<open>os.path.abspath\<close> first,
  and an exception answers True.
\<close>

definition is_under_whitelist :: "scanner \<Rightarrow> world \<Rightarrow> path \<Rightarrow> bool" where
  "is_under_whitelist s w p =
     (case abspath (cwd w) p of
        None \<Rightarrow> True
      | Some a \<Rightarrow> (\<exists>wl \<in> whitelist_paths s. a = wl \<or> startswith a (wl @ sep)))"

text \<open>
  \<open>any(os.path.commonpath([file_path, d]) == d for d in dirs)\<close>: the generator stops at
  the first directory that matches, and a \<open>ValueError\<close> of \<open>commonpath\<close> before that
  leaves the expression.
\<close>

fun inside_any :: "path \<Rightarrow> path list \<Rightarrow> exn + bool" where
  "inside_any file_path [] = Inr False"
| "inside_any file_path (d # ds) =
     (case commonpath file_path d of
        None \<Rightarrow> Inl ValueError
      | Some c \<Rightarrow> if c = d then Inr True else inside_any file_path ds)"

text \<open>\<open>Scanner._classify_file\<close>; the result \<open>None\<close> of Python is \<open>Inr None\<close>.\<close>

definition classify_file ::
  "scanner \<Rightarrow> world \<Rightarrow> path \<Rightarrow> int option \<Rightarrow> int option \<Rightarrow> exn + string option" where
  "classify_file s w file_path age_seconds size_threshold_bytes =
     (case os_stat w file_path of
        Inl e \<Rightarrow> Inr (Some ''skip'')
      | Inr (mtime, sz) \<Rightarrow>
          if is_under_whitelist s w file_path then Inr (Some ''skipped'')
          else if (case age_seconds of None \<Rightarrow> False
                   | Some a \<Rightarrow> now w - mtime < real_of_int a) then Inr None
          else
            let suffix = lower (suffix_of file_path) in
            if suffix \<in> potentially_dangerous_extensions s then
              (case inside_any file_path (download_dirs s @ temp_dirs s) of
                 Inl e \<Rightarrow> Inl e
               | Inr b \<Rightarrow> if b then Inr (Some ''harmful'') else Inr (Some ''skipped''))
            else if suffix \<in> suspicious_script_extensions s then
              (case inside_any file_path (download_dirs s @ temp_dirs s) of
                 Inl e \<Rightarrow> Inl e
               | Inr b \<Rightarrow> if b then Inr (Some ''suspicious'') else Inr None)
            else if suffix \<in> junk_extensions s then
              (if (case size_threshold_bytes of None \<Rightarrow> False
                   | Some t \<Rightarrow> t \<noteq> 0 \<and> sz < t) then Inr None
               else Inr (Some ''junk''))
            else if (case size_threshold_bytes of None \<Rightarrow> False
                     | Some t \<Rightarrow> t \<noteq> 0 \<and> sz \<ge> max t (20 * 1024 * 1024)) then
              (case inside_any file_path (download_dirs s @ temp_dirs s) of
                 Inl e \<Rightarrow> Inl e
               | Inr b \<Rightarrow>
                   if b then Inr (Some ''large'')
                   else (case inside_any file_path (browser_cache_dirs s) of
                           Inl e \<Rightarrow> Inl e
                         | Inr c \<Rightarrow> if c then Inr (Some ''junk'') else Inr None))
            else Inr None)"

text \<open>
  The call of \<open>_classify_file\<close> inside \<open>_walk_and_collect\<close>, with its
  \<open>except Exception: cat = "skipped"\<close>.
\<close>

definition classify_caught ::
  "scanner \<Rightarrow> world \<Rightarrow> path \<Rightarrow> int option \<Rightarrow> int option \<Rightarrow> string option" where
  "classify_caught s w file_path age_seconds size_threshold_bytes =
     (case classify_file s w file_path age_seconds size_threshold_bytes of
        Inl e \<Rightarrow> Some ''skipped''
      | Inr cat \<Rightarrow> cat)"

text \<open>
  The body of the inner loop of \<open>_walk_and_collect\<close> after classification: a new
  category gets an empty list, a category at its limit stores nothing more.
\<close>

definition store :: "path list dict \<Rightarrow> int dict \<Rightarrow> string \<Rightarrow> path \<Rightarrow> path list dict" where
  "store found category_limits cat file_path =
     (let found1 = (if dict_get found cat = None then dict_set found cat [] else found);
          stored = (case dict_get found1 cat of None \<Rightarrow> [] | Some l \<Rightarrow> l)
      in if (case dict_get category_limits cat of
               None \<Rightarrow> False
             | Some n \<Rightarrow> n \<noteq> 0 \<and> int (length stored) \<ge> n) then found1
         else dict_set found1 cat (stored @ [file_path]))"

fun collect_files ::
  "scanner \<Rightarrow> world \<Rightarrow> int option \<Rightarrow> int option \<Rightarrow> int dict \<Rightarrow> path list dict
     \<Rightarrow> path list \<Rightarrow> path list dict" where
  "collect_files s w age_seconds size_threshold_bytes category_limits found [] = found"
| "collect_files s w age_seconds size_threshold_bytes category_limits found (file_path # rest) =
     collect_files s w age_seconds size_threshold_bytes category_limits
       (case classify_caught s w file_path age_seconds size_threshold_bytes of
          None \<Rightarrow> found
        | Some cat \<Rightarrow> store found category_limits cat file_path)
       rest"

text \<open>
  \<open>Scanner._walk_and_collect\<close>. The scan only reads the file system, so the files of all
  folders can be listed first: \<open>visited_files\<close> are the paths given to \<open>_classify_file\<close>,
  in order.
\<close>

definition visited_files :: "world \<Rightarrow> path list \<Rightarrow> path list" where
  "visited_files w folders = concat (map (walk_files w) (filter (exists w) folders))"

definition walk_and_collect ::
  "scanner \<Rightarrow> world \<Rightarrow> path list dict \<Rightarrow> path list \<Rightarrow> int option \<Rightarrow> int option \<Rightarrow> int dict
     \<Rightarrow> path list dict" where
  "walk_and_collect s w found folders age_seconds size_threshold_bytes category_limits =
     collect_files s w age_seconds size_threshold_bytes category_limits found
       (visited_files w folders)"

text \<open>\<open>dict.fromkeys(folders)\<close>: the first occurrence of each folder, in order.\<close>

fun dedupe :: "'a list \<Rightarrow> 'a list \<Rightarrow> 'a list" where
  "dedupe seen [] = []"
| "dedupe seen (x # xs) = (if x \<in> set seen then dedupe seen xs else x # dedupe (x # seen) xs)"

text \<open>
  The report of \<open>scan_all\<close>. The sizes are the byte totals \<open>summary_sizes\<close>; their
  formatting by \<open>_human\<close> is floating-point output and is not modelled.
\<close>

record summary =
  counts :: "nat dict"
  sizes :: "int dict"
  lists :: "path list dict"
  total_files :: nat
  total_size_bytes :: int
  scanned_folders :: "path list"
  dry_run :: bool
  notes_whitelist_paths :: "path set"
  notes_download_dirs :: "path list"
  notes_browser_cache_dirs :: "path list"

definition sum_sizes :: "world \<Rightarrow> path list \<Rightarrow> int" where
  "sum_sizes w files =
     sum_list (map (\<lambda>p. case getsize w p of Inl e \<Rightarrow> 0 | Inr n \<Rightarrow> n) files)"

definition scan_folders :: "scanner \<Rightarrow> world \<Rightarrow> bool \<Rightarrow> bool \<Rightarrow> path list \<Rightarrow> path list" where
  "scan_folders s w include_downloads include_browser_cache extra_scan_dirs =
     filter (exists w)
       (dedupe []
          (temp_dirs s
           @ (if include_browser_cache then browser_cache_dirs s else [])
           @ (if include_downloads then download_dirs s else [])
           @ extra_scan_dirs))"

definition scan_all ::
  "scanner \<Rightarrow> world \<Rightarrow> int option \<Rightarrow> int option \<Rightarrow> bool \<Rightarrow> bool \<Rightarrow> path list \<Rightarrow> int dict
     \<Rightarrow> bool \<Rightarrow> summary" where
  "scan_all s w age_seconds size_threshold_bytes include_downloads include_browser_cache
     extra_scan_dirs category_limits dry =
     (let folders = scan_folders s w include_downloads include_browser_cache extra_scan_dirs;
          found = walk_and_collect s w initial_found folders age_seconds size_threshold_bytes
                    category_limits;
          summary_counts = map (\<lambda>(cat, files). (cat, length files)) found;
          summary_sizes = map (\<lambda>(cat, files). (cat, sum_sizes w files)) found
      in \<lparr>counts = summary_counts,
          sizes = summary_sizes,
          lists = found,
          total_files = sum_list (map snd summary_counts),
          total_size_bytes = sum_list (map snd summary_sizes),
          scanned_folders = folders,
          dry_run = dry,
          notes_whitelist_paths = whitelist_paths s,
          notes_download_dirs = download_dirs s,
          notes_browser_cache_dirs = browser_cache_dirs s\<rparr>)"


section \<open>Optimizer (\<open>modules/optimizer.py\<close>)\<close>

record optimizer =
  opt_whitelist_paths :: "path set"
  opt_temp_dirs :: "path list"

text \<open>\<open>{os.path.abspath(p) for p in wl if os.path.exists(p)}\<close>.\<close>

definition Optimizer_get_whitelist_paths :: "world \<Rightarrow> path set option" where
  "Optimizer_get_whitelist_paths w =
     (let wl = {p \<in> configured_whitelist w. exists w p} in
      if \<exists>p \<in> wl. abspath (cwd w) p = None then None
      else Some ((\<lambda>p. the (abspath (cwd w) p)) ` wl))"

definition Optimizer_get_temp_dirs :: "world \<Rightarrow> path list" where
  "Optimizer_get_temp_dirs w =
     (let s = system w;
          dirs =
            (if s = ''Windows'' then
               [tempdir w]
               @ (case env_nonempty w ''USERPROFILE'' of
                    None \<Rightarrow> []
                  | Some user \<Rightarrow> [joins user [''AppData'', ''Local'', ''Temp'']])
             else if s = ''Linux'' then [''/tmp'', expanduser w ''~/.cache'']
             else if s = ''Darwin'' then [''/tmp'', expanduser w ''~/Library/Caches'']
             else [])
      in filter (exists w) dirs)"

definition Optimizer_init :: "world \<Rightarrow> optimizer option" where
  "Optimizer_init w =
     (case Optimizer_get_whitelist_paths w of
        None \<Rightarrow> None
      | Some wl \<Rightarrow> Some \<lparr>opt_whitelist_paths = wl, opt_temp_dirs = Optimizer_get_temp_dirs w\<rparr>)"

text \<open>\<open>Optimizer._is_safe_path\<close>: here an exception of \<open>abspath\<close> is not caught.\<close>

definition is_safe_path :: "optimizer \<Rightarrow> world \<Rightarrow> path \<Rightarrow> exn + bool" where
  "is_safe_path opt w p =
     (case abspath (cwd w) p of
        None \<Rightarrow> Inl FileNotFoundError
      | Some a \<Rightarrow> Inr (\<not> (\<exists>wl \<in> opt_whitelist_paths opt. a = wl \<or> startswith a (wl @ sep))))"

text \<open>
  The body of the innermost loop of \<open>optimize_disk\<close> for one \<open>fpath\<close>; the state is the
  file system and the list \<open>removed_files\<close>. Every exception means \<open>continue\<close>.
\<close>

definition optimize_file ::
  "optimizer \<Rightarrow> real \<Rightarrow> bool \<Rightarrow> world \<times> path list \<Rightarrow> path \<Rightarrow> world \<times> path list" where
  "optimize_file opt age_seconds delete_small_files state fpath =
     (let (w, removed_files) = state in
      case is_safe_path opt w fpath of
        Inl e \<Rightarrow> state
      | Inr safe \<Rightarrow>
          if \<not> safe then state
          else
            (case getmtime w fpath of
               Inl e \<Rightarrow> state
             | Inr mtime \<Rightarrow>
                 if now w - mtime < age_seconds then state
                 else
                   (case (if \<not> delete_small_files
                          then (case getsize w fpath of Inl e \<Rightarrow> Inl e | Inr n \<Rightarrow> Inr (n < 1024))
                          else Inr False) of
                      Inl e \<Rightarrow> state
                    | Inr small \<Rightarrow>
                        if small then state
                        else
                          (case os_remove w fpath of
                             Inl e \<Rightarrow> state
                           | Inr w' \<Rightarrow> (w', removed_files @ [fpath])))))"

text \<open>
  The loops over the folders and over \<open>os.walk(folder)\<close>. The body removes only files of
  directories that the walk has listed already, so it does not change what the walk
  lists later in the same folder; the files of a folder are therefore listed when its
  walk starts, in the file system the earlier folders have left.
\<close>

fun optimize_folders ::
  "optimizer \<Rightarrow> real \<Rightarrow> bool \<Rightarrow> world \<times> path list \<Rightarrow> path list \<Rightarrow> world \<times> path list" where
  "optimize_folders opt age_seconds delete_small_files state [] = state"
| "optimize_folders opt age_seconds delete_small_files state (folder # rest) =
     optimize_folders opt age_seconds delete_small_files
       (foldl (optimize_file opt age_seconds delete_small_files) state
          (walk_files (fst state) folder))
       rest"

text \<open>\<open>Optimizer.optimize_disk\<close>: the file system it leaves and the list it returns.\<close>

definition optimize_disk :: "optimizer \<Rightarrow> world \<Rightarrow> real \<Rightarrow> bool \<Rightarrow> world \<times> path list" where
  "optimize_disk opt w max_age_days delete_small_files =
     optimize_folders opt (max_age_days * 86400) delete_small_files (w, []) (opt_temp_dirs opt)"

section \<open>Cleaner (\<open>modules/cleaner.py\<close>)\<close>

text \<open>\<open>use_trash\<close> is \<open>_HAS_SEND2TRASH\<close>: whether the import of \<open>send2trash\<close> succeeded.\<close>

record cleaner =
  use_trash :: bool

datatype fsop = Remove path | Rmdir path

text \<open>
  The permanent delete of \<open>clean_paths\<close>. For a directory, the calls of \<open>os.remove\<close> and
  \<open>os.rmdir\<close> of the bottom-up walk, in order, then \<open>os.rmdir(p)\<close>; the first exception
  ends the sequence and keeps what has been removed so far.
\<close>

definition delete_ops :: "world \<Rightarrow> path \<Rightarrow> fsop list" where
  "delete_ops w p =
     (if isdir w p then
        concat (map (\<lambda>(r, dirs, files).
                       map (\<lambda>name. Remove (join r name)) files
                       @ map (\<lambda>name. Rmdir (join r name)) dirs)
                  (os_walk_bottomup w p))
        @ [Rmdir p]
      else [Remove p])"

fun run_ops :: "world \<Rightarrow> fsop list \<Rightarrow> world \<times> exn option" where
  "run_ops w [] = (w, None)"
| "run_ops w (x # ops) =
     (case (case x of Remove q \<Rightarrow> os_remove w q | Rmdir q \<Rightarrow> os_rmdir w q) of
        Inl e \<Rightarrow> (w, Some e)
      | Inr w' \<Rightarrow> run_ops w' ops)"

definition permanent_delete :: "world \<Rightarrow> path \<Rightarrow> world \<times> exn option" where
  "permanent_delete w p = run_ops w (delete_ops w p)"

text \<open>
  One iteration of the loop of \<open>clean_paths\<close>: the new file system, and the pair
  appended to \<open>errors\<close> (\<open>Inl\<close>) or to \<open>results\<close> (\<open>Inr\<close>).
\<close>

definition clean_path ::
  "cleaner \<Rightarrow> bool \<Rightarrow> bool \<Rightarrow> world \<Rightarrow> path \<Rightarrow> world \<times> (path \<times> string + path \<times> string)" where
  "clean_path c dry force w p =
     (if \<not> exists w p then (w, Inl (p, ''NotFound''))
      else if dry then
        (w, Inr (p, if use_trash c then ''trashed''
                    else if force then ''deleted'' else ''would_delete_but_no_trash''))
      else if use_trash c then
        (case send2trash w p of
           Inl e \<Rightarrow> (w, Inl (p, str_exn e))
         | Inr w' \<Rightarrow> (w', Inr (p, ''trashed'')))
      else if force then
        (case permanent_delete w p of
           (w', Some e) \<Rightarrow> (w', Inl (p, str_exn e))
         | (w', None) \<Rightarrow> (w', Inr (p, ''deleted'')))
      else (w, Inl (p, ''send2trash_not_available'')))"

fun clean_loop ::
  "cleaner \<Rightarrow> bool \<Rightarrow> bool \<Rightarrow> world \<Rightarrow> (path \<times> string) list \<Rightarrow> (path \<times> string) list \<Rightarrow> path list
     \<Rightarrow> world \<times> (path \<times> string) list \<times> (path \<times> string) list" where
  "clean_loop c dry force w results errors [] = (w, results, errors)"
| "clean_loop c dry force w results errors (p # ps) =
     (case clean_path c dry force w p of
        (w', Inl err) \<Rightarrow> clean_loop c dry force w' results (errors @ [err]) ps
      | (w', Inr res) \<Rightarrow> clean_loop c dry force w' (results @ [res]) errors ps)"

text \<open>\<open>Cleaner.clean_paths\<close>: the file system it leaves, \<open>results\<close> and \<open>errors\<close>.\<close>

definition clean_paths ::
  "cleaner \<Rightarrow> world \<Rightarrow> path list \<Rightarrow> bool \<Rightarrow> bool
     \<Rightarrow> world \<times> (path \<times> string) list \<times> (path \<times> string) list" where
  "clean_paths c w paths dry force = clean_loop c dry force w [] [] paths"

section \<open>A sample host\<close>

text \<open>
  A small Linux machine used to run the definitions: a user \<open>u\<close> with a download and a
  cache directory, some temporary files, and no \<open>/lib64\<close>. The clock reads 1000000;
  a time stamp of 136000 is ten days old and 827200 is two days old.
\<close>

definition mkdir :: "string \<Rightarrow> node list \<Rightarrow> node" where
  "mkdir nm es = Dir nm (Some (0, 4096)) True True es"

definition mkfile :: "string \<Rightarrow> real \<Rightarrow> int \<Rightarrow> node" where
  "mkfile nm mtime sz = File nm (Some (mtime, sz)) True"

definition sample_root :: node where
  "sample_root =
     mkdir []
       [mkdir ''tmp''
          [mkfile ''app.tmp'' 827200 2048,
           mkfile ''big.iso'' 136000 31457280,
           File ''gone.log'' None True,
           File ''busy.tmp'' (Some (136000, 4096)) False,
           mkdir ''build'' [mkfile ''setup.exe'' 136000 5000]],
        mkdir ''etc'' [mkfile ''hosts'' 136000 220],
        mkdir ''var'' [mkdir ''tmp'' [mkfile ''a.log'' 136000 3000]],
        mkdir ''opt'' [mkdir ''tools'' [mkfile ''setup.exe'' 136000 5000]],
        mkdir ''home''
          [mkdir ''u''
             [mkdir ''Downloads'' [mkfile ''setup.exe'' 136000 5000],
              mkdir ''.cache'' [mkdir ''mozilla'' [mkfile ''blob.bin'' 136000 31457280]]]],
        mkdir ''bin'' [], mkdir ''sbin'' [], mkdir ''usr'' [mkdir ''bin'' [], mkdir ''sbin'' []],
        mkdir ''lib'' []]"

definition sample_world :: world where
  "sample_world =
     \<lparr>root = sample_root, cwd = Some ''/tmp'', now = 1000000, system = ''Linux'',
      environ = Map.empty, userhome = Some ''/home/u'', tempdir = ''/tmp'', trash = []\<rparr>"

definition linux_whitelist :: "path set" where
  "linux_whitelist =
     {''/'', ''/bin'', ''/sbin'', ''/usr'', ''/usr/bin'', ''/usr/sbin'',
      ''/lib'', ''/lib64'', ''/etc'', ''/var''}"

text \<open>The scanner that \<open>Scanner()\<close> builds on the sample host (see \<open>sample_scanner_init\<close>).\<close>

definition sample_scanner :: scanner where
  "sample_scanner =
     \<lparr>extra_dirs = [],
      junk_extensions =
        {''.tmp'', ''.log'', ''.bak'', ''.old'', ''.crdownload'', ''.part'', ''.cache'',
         ''.swp'', ''.~'', ''.trashinfo''},
      potentially_dangerous_extensions =
        {''.exe'', ''.msi'', ''.bat'', ''.cmd'', ''.ps1'', ''.vbs'', ''.scr'', ''.jar'',
         ''.apk'', ''.dmg'', ''.pkg''},
      suspicious_script_extensions = {''.sh'', ''.py'', ''.pl'', ''.rb''},
      temp_dirs = [''/tmp'', ''/home/u/.cache''],
      browser_cache_dirs = [''/home/u/.cache/mozilla''],
      download_dirs = [''/home/u/Downloads''],
      whitelist_paths = linux_whitelist\<rparr>"


text \<open>The optimizer that \<open>Optimizer()\<close> builds on the sample host.\<close>

definition sample_optimizer :: optimizer where
  "sample_optimizer =
     \<lparr>opt_whitelist_paths =
        {''/'', ''/bin'', ''/sbin'', ''/usr'', ''/usr/bin'', ''/usr/sbin'', ''/lib'',
         ''/etc'', ''/var''},
      opt_temp_dirs = [''/tmp'', ''/home/u/.cache'']\<rparr>"

text \<open>
  Two more scanners on the sample host: \<open>Scanner(extra_dirs=['/opt/'])\<close>, an extra
  directory written with a trailing slash, and \<open>Scanner(extra_dirs=['build'])\<close>, an extra
  directory relative to the working directory \<open>/tmp\<close>.
\<close>

definition slash_scanner :: scanner where
  "slash_scanner =
     sample_scanner\<lparr>extra_dirs := [''/opt/''],
                     temp_dirs := [''/tmp'', ''/home/u/.cache'', ''/opt/'']\<rparr>"

definition relative_scanner :: scanner where
  "relative_scanner =
     sample_scanner\<lparr>extra_dirs := [''build''],
                     temp_dirs := [''/tmp'', ''/home/u/.cache'', ''build'']\<rparr>"

text \<open>
  A host on which \<open>platform.system()\<close> is \<open>Windows\<close>. Its environment variables hold
  paths in the form the modelled \<open>os.path\<close> reads, and \<open>WINDIR\<close> is written with a
  trailing slash. The browser cache of Chrome exists and holds one file of 30 MiB; the
  two \<open>Program Files\<close> directories and the two protected \<open>AppData\<close> directories do not
  exist.
\<close>

definition windows_root :: node where
  "windows_root =
     mkdir []
       [mkdir ''Windows'' [mkdir ''Temp'' []],
        mkdir ''Users''
          [mkdir ''u''
             [mkdir ''Downloads'' [],
              mkdir ''AppData''
                [mkdir ''Local''
                   [mkdir ''Temp'' [],
                    mkdir ''Google''
                      [mkdir ''Chrome''
                         [mkdir ''User Data''
                            [mkdir ''Default''
                               [mkdir ''Cache''
                                  [mkfile ''data_1'' 136000 31457280]]]]]]]]]]"

definition windows_environ :: "string \<Rightarrow> string option" where
  "windows_environ =
     [''WINDIR'' \<mapsto> ''/Windows/'', ''SYSTEMDRIVE'' \<mapsto> ''/'', ''USERPROFILE'' \<mapsto> ''/Users/u'',
      ''LOCALAPPDATA'' \<mapsto> ''/Users/u/AppData/Local'']"

definition windows_world :: world where
  "windows_world =
     \<lparr>root = windows_root, cwd = Some ''/Users/u'', now = 1000000, system = ''Windows'',
      environ = windows_environ, userhome = Some ''/Users/u'',
      tempdir = ''/Users/u/AppData/Local/Temp'', trash = []\<rparr>"

definition windows_cache :: path where
  "windows_cache = ''/Users/u/AppData/Local/Google/Chrome/User Data/Default/Cache''"

text \<open>The scanner that \<open>Scanner()\<close> builds on that host (see \<open>windows_scanner_init\<close>).\<close>

definition windows_scanner :: scanner where
  "windows_scanner =
     sample_scanner
       \<lparr>temp_dirs := [''/Users/u/AppData/Local/Temp'', ''/Windows/Temp'',
                      ''/Users/u/AppData/Local/Temp''],
        browser_cache_dirs := [windows_cache],
        download_dirs := [''/Users/u/Downloads''],
        whitelist_paths :=
          {''/Windows'', ''/Program Files'', ''/Program Files (x86)'',
           ''/Users/u/AppData/Roaming'', ''/Users/u/AppData/Local/Programs''}\<rparr>"

section \<open>Notions used in the statements\<close>

text \<open>
  The action a dry run reports; the list stored for a category and whether it has
  reached its limit; and the reading of the dictionary \<open>_found\<close>: every stored path was
  classified with the category it is stored under.
\<close>

definition intended_action :: "cleaner \<Rightarrow> bool \<Rightarrow> string" where
  "intended_action c force =
     (if use_trash c then ''trashed''
      else if force then ''deleted'' else ''would_delete_but_no_trash'')"

definition stored_of :: "path list dict \<Rightarrow> string \<Rightarrow> path list" where
  "stored_of found cat = (case dict_get found cat of None \<Rightarrow> [] | Some l \<Rightarrow> l)"

definition at_limit :: "int dict \<Rightarrow> path list dict \<Rightarrow> string \<Rightarrow> bool" where
  "at_limit category_limits found cat =
     (case dict_get category_limits cat of
        None \<Rightarrow> False
      | Some n \<Rightarrow> n \<noteq> 0 \<and> int (length (stored_of found cat)) \<ge> n)"

definition found_sound ::
  "scanner \<Rightarrow> world \<Rightarrow> int option \<Rightarrow> int option \<Rightarrow> path list dict \<Rightarrow> bool" where
  "found_sound s w a t found =
     (\<forall>cat l p. dict_get found cat = Some l \<and> p \<in> set l \<longrightarrow>
                 classify_caught s w p a t = Some cat)"

text \<open>
  For the disk optimisation: the file paths a walk of a node yields; a file system that
  came from another by removing entries (same working directory and clock, no new
  metadata, no new file in any walk); the file system after \<open>os.remove\<close> of a list of
  paths in order; the conditions on a removed path; and the invariant of the
  loops of \<open>optimize_disk\<close>.
\<close>

definition walk_paths :: "path \<Rightarrow> node \<Rightarrow> path set" where
  "walk_paths topdir n =
     set (concat (map (\<lambda>(r, dirs, files). map (join r) files) (walk_node topdir n)))"

definition shrunk :: "world \<Rightarrow> world \<Rightarrow> bool" where
  "shrunk w0 w =
     (cwd w = cwd w0 \<and> now w = now w0
      \<and> (\<forall>p st. os_stat w p = Inr st \<longrightarrow> os_stat w0 p = Inr st)
      \<and> (\<forall>folder. set (walk_files w folder) \<subseteq> set (walk_files w0 folder)))"

definition apply_removals :: "world \<Rightarrow> path list \<Rightarrow> world" where
  "apply_removals w ps =
     foldl (\<lambda>v p. case os_remove v p of Inl e \<Rightarrow> v | Inr v' \<Rightarrow> v') w ps"

definition removal_permitted :: "optimizer \<Rightarrow> world \<Rightarrow> real \<Rightarrow> path \<Rightarrow> bool" where
  "removal_permitted opt w age_seconds p =
     (is_safe_path opt w p = Inr True
      \<and> (\<exists>folder \<in> set (opt_temp_dirs opt). p \<in> set (walk_files w folder))
      \<and> (\<exists>mtime sz. os_stat w p = Inr (mtime, sz) \<and> age_seconds \<le> now w - mtime))"

definition optimize_inv :: "optimizer \<Rightarrow> world \<Rightarrow> real \<Rightarrow> world \<times> path list \<Rightarrow> bool" where
  "optimize_inv opt w0 age_seconds state =
     (shrunk w0 (fst state)
      \<and> (\<forall>p \<in> set (snd state). removal_permitted opt w0 age_seconds p)
      \<and> fst state = apply_removals w0 (snd state))"

text \<open>
  For paths in normal form. A component is plain when it has no slash; a list of
  components is clean when each is plain and none is empty, \<open>.\<close> or \<open>..\<close>; \<open>slashes\<close>
  is the \<open>initial_slashes\<close> of \<open>normpath\<close>. A path is absolute and in normal form when it
  is one slash followed by its components joined by single slashes, none of them \<open>..\<close>:
  no empty or \<open>.\<close> component and no trailing slash. A path is inside a directory when
  the components of the directory are the leading components of the path.
\<close>

definition noslash :: "string \<Rightarrow> bool" where
  "noslash c = (CHR ''/'' \<notin> set c)"

definition clean :: "string list \<Rightarrow> bool" where
  "clean cs = (\<forall>c \<in> set cs. c \<noteq> [] \<and> c \<noteq> ''.'' \<and> c \<noteq> ''..'' \<and> noslash c)"

definition slashes :: "path \<Rightarrow> nat" where
  "slashes p = (if startswith p ''//'' \<and> \<not> startswith p ''///'' then 2
                else if startswith p ''/'' then 1 else 0)"

definition normal_abs :: "path \<Rightarrow> bool" where
  "normal_abs p = (p = CHR ''/'' # join_sep (path_comps p) \<and> ''..'' \<notin> set (path_comps p))"

definition inside_dir :: "path \<Rightarrow> path \<Rightarrow> bool" where
  "inside_dir P d = prefix (path_comps d) (path_comps P)"

section \<open>Evaluation on the sample host\<close>

lemmas path_eval = startswith_def endswith_def normpath_def abspath_def join_def joins_def
  commonpath_def path_comps_def path_name_def suffix_of_def to_lower_def sep_def
  rstrip_sep_def expanduser_def

lemmas fs_eval = resolve_def node_at_def os_stat_def exists_def isdir_def getmtime_def
  getsize_def os_walk_def walk_files_def os_walk_bottomup_def

lemmas sample_eval = sample_world_def sample_root_def mkdir_def mkfile_def
  sample_scanner_def linux_whitelist_def

lemma sample_cwd: "cwd sample_world = Some ''/tmp''"
  by (simp add: sample_world_def)

lemma sample_now: "now sample_world = 1000000"
  by (simp add: sample_world_def)

lemma stat_hosts: "os_stat sample_world ''/etc/hosts'' = Inr (136000, 220)"
  by (simp add: path_eval fs_eval sample_eval)

lemma stat_dotdot: "os_stat sample_world ''/etc/../tmp/app.tmp'' = Inr (827200, 2048)"
  by (simp add: path_eval fs_eval sample_eval)

lemma stat_gone: "os_stat sample_world ''/tmp/gone.log'' = Inl PermissionError"
  by (simp add: path_eval fs_eval sample_eval)

lemma stat_big: "os_stat sample_world ''/tmp/big.iso'' = Inr (136000, 31457280)"
  by (simp add: path_eval fs_eval sample_eval)

lemma stat_downloads_setup:
  "os_stat sample_world ''/home/u/Downloads/setup.exe'' = Inr (136000, 5000)"
  by (simp add: path_eval fs_eval sample_eval)

lemma stat_opt_setup: "os_stat sample_world ''/opt/tools/setup.exe'' = Inr (136000, 5000)"
  by (simp add: path_eval fs_eval sample_eval)

lemma not_whitelisted_dotdot:
  "\<not> is_under_whitelist sample_scanner sample_world ''/etc/../tmp/app.tmp''"
  by (simp add: is_under_whitelist_def path_eval sample_eval)

lemma not_whitelisted_big: "\<not> is_under_whitelist sample_scanner sample_world ''/tmp/big.iso''"
  by (simp add: is_under_whitelist_def path_eval sample_eval)

lemma not_whitelisted_downloads_setup:
  "\<not> is_under_whitelist sample_scanner sample_world ''/home/u/Downloads/setup.exe''"
  by (simp add: is_under_whitelist_def path_eval sample_eval)

lemma not_whitelisted_opt_setup:
  "\<not> is_under_whitelist sample_scanner sample_world ''/opt/tools/setup.exe''"
  by (simp add: is_under_whitelist_def path_eval sample_eval)

lemma inside_downloads_setup:
  "inside_any ''/home/u/Downloads/setup.exe''
     (download_dirs sample_scanner @ temp_dirs sample_scanner) = Inr True"
  by (simp add: path_eval sample_eval)

lemma inside_opt_setup:
  "inside_any ''/opt/tools/setup.exe''
     (download_dirs sample_scanner @ temp_dirs sample_scanner) = Inr False"
  by (simp add: path_eval sample_eval)

lemma inside_big:
  "inside_any ''/tmp/big.iso'' (download_dirs sample_scanner @ temp_dirs sample_scanner)
     = Inr True"
  by (simp add: path_eval sample_eval)

lemma suffix_setup:
  "lower (suffix_of ''/home/u/Downloads/setup.exe'') = ''.exe''"
  "lower (suffix_of ''/opt/tools/setup.exe'') = ''.exe''"
  by (simp_all add: path_eval)

lemma suffix_big: "lower (suffix_of ''/tmp/big.iso'') = ''.iso''"
  by (simp add: path_eval)

lemma configured_whitelist_unix:
  "system w \<noteq> ''Windows'' \<Longrightarrow>
   configured_whitelist w =
     {''/'', ''/bin'', ''/sbin'', ''/usr'', ''/usr/bin'', ''/usr/sbin'',
      ''/lib'', ''/lib64'', ''/etc'', ''/var''}
     \<union> (if system w = ''Darwin'' then {''/System'', ''/Applications''} else {})"
  by (simp add: configured_whitelist_def)

lemma abspath_unix_entry:
  assumes "p \<in> {''/'', ''/bin'', ''/sbin'', ''/usr'', ''/usr/bin'', ''/usr/sbin'',
                 ''/lib'', ''/lib64'', ''/etc'', ''/var'', ''/System'', ''/Applications''}"
  shows "abspath c p = Some p"
  using assms by (auto simp: path_eval)

lemma abspath_configured_unix:
  assumes "system w \<noteq> ''Windows''" and "p \<in> configured_whitelist w"
  shows "abspath c p = Some p"
proof -
  have "p \<in> {''/'', ''/bin'', ''/sbin'', ''/usr'', ''/usr/bin'', ''/usr/sbin'',
              ''/lib'', ''/lib64'', ''/etc'', ''/var'', ''/System'', ''/Applications''}"
    using assms by (auto simp: configured_whitelist_unix split: if_splits)
  then show ?thesis by (rule abspath_unix_entry)
qed

lemma nonempty_configured_unix:
  assumes "system w \<noteq> ''Windows''" and "p \<in> configured_whitelist w"
  shows "p \<noteq> []"
  using assms by (auto simp: configured_whitelist_unix split: if_splits)

lemma Scanner_whitelist_unix:
  assumes "system w \<noteq> ''Windows''"
  shows "Scanner_get_whitelist_paths w = Some (configured_whitelist w)"
proof -
  have keep: "{p \<in> configured_whitelist w. p \<noteq> []} = configured_whitelist w"
    using nonempty_configured_unix [OF assms] by auto
  have img: "(\<lambda>p. the (abspath (cwd w) p)) ` configured_whitelist w = configured_whitelist w"
    using abspath_configured_unix [OF assms] by force
  have none: "\<not> (\<exists>p \<in> configured_whitelist w. abspath (cwd w) p = None)"
    using abspath_configured_unix [OF assms] by auto
  show ?thesis
    unfolding Scanner_get_whitelist_paths_def keep Let_def img
    using none by (simp only: if_False)
qed

lemma sample_system: "system sample_world = ''Linux''"
  by (simp add: sample_world_def)

lemma sample_configured: "configured_whitelist sample_world = linux_whitelist"
  by (simp add: configured_whitelist_unix sample_system linux_whitelist_def)

lemma sample_Scanner_whitelist: "Scanner_get_whitelist_paths sample_world = Some linux_whitelist"
  by (simp add: Scanner_whitelist_unix sample_system sample_configured)

lemma sample_exists:
  "exists sample_world ''/tmp''"
  "exists sample_world ''/home/u/.cache''"
  "exists sample_world ''/home/u/Downloads''"
  "exists sample_world ''/home/u/.cache/mozilla''"
  "\<not> exists sample_world ''/home/u/.cache/google-chrome''"
  "\<not> exists sample_world ''/home/u/.cache/chromium''"
  "\<not> exists sample_world ''/lib64''"
  by (simp_all add: path_eval fs_eval sample_eval)

lemma sample_expanduser:
  "expanduser sample_world ''~'' = ''/home/u''"
  "expanduser sample_world ''~/.cache'' = ''/home/u/.cache''"
  by (simp_all add: path_eval sample_world_def)

lemma sample_temp_dirs: "Scanner_get_temp_dirs sample_world [] = [''/tmp'', ''/home/u/.cache'']"
  by (simp add: Scanner_get_temp_dirs_def sample_system sample_expanduser sample_exists)

lemma sample_download_dirs: "Scanner_get_download_dirs sample_world = [''/home/u/Downloads'']"
proof -
  have "join ''/home/u'' ''Downloads'' = ''/home/u/Downloads''"
    by (simp add: path_eval)
  then show ?thesis
    by (simp add: Scanner_get_download_dirs_def sample_system sample_expanduser sample_exists)
qed

lemma sample_browser_cache_dirs:
  "Scanner_get_browser_cache_dirs sample_world = [''/home/u/.cache/mozilla'']"
proof -
  have "joins ''/home/u'' [''.cache'', ''google-chrome''] = ''/home/u/.cache/google-chrome''"
       "joins ''/home/u'' [''.cache'', ''chromium''] = ''/home/u/.cache/chromium''"
       "joins ''/home/u'' [''.cache'', ''mozilla''] = ''/home/u/.cache/mozilla''"
    by (simp_all add: path_eval)
  then show ?thesis
    by (simp add: Scanner_get_browser_cache_dirs_def sample_system sample_expanduser
          sample_exists)
qed

lemma sample_scanner_init: "Scanner_init sample_world [] = Some sample_scanner"
  by (simp add: Scanner_init_def sample_Scanner_whitelist sample_temp_dirs
        sample_download_dirs sample_browser_cache_dirs sample_scanner_def)

section \<open>Classification\<close>

text \<open>
  C1, as amended. For a file whose metadata can be read: when its path, made absolute and
  normalised by \<open>os.path.abspath\<close>, equals a whitelist entry \<open>W\<close> or starts with \<open>W\<close>
  followed by the separator, \<open>_classify_file\<close> returns \<open>skipped\<close>, whatever the age
  threshold, the size threshold, the extension, the age and the size are.
\<close>

theorem whitelist_supremacy:
  assumes "os_stat w P = Inr st"
    and "abspath (cwd w) P = Some a"
    and "W \<in> whitelist_paths s"
    and "a = W \<or> startswith a (W @ sep)"
  shows "classify_file s w P age_seconds size_threshold_bytes = Inr (Some ''skipped'')"
proof -
  have "is_under_whitelist s w P"
    using assms(2-4) by (auto simp: is_under_whitelist_def)
  with assms(1) show ?thesis
    by (cases st) (simp add: classify_file_def)
qed

theorem whitelist_supremacy_witness:
  "os_stat sample_world ''/etc/hosts'' = Inr (136000, 220)
   \<and> abspath (cwd sample_world) ''/etc/hosts'' = Some ''/etc/hosts''
   \<and> ''/etc'' \<in> whitelist_paths sample_scanner
   \<and> startswith ''/etc/hosts'' (''/etc'' @ sep)
   \<and> classify_file sample_scanner sample_world ''/etc/hosts'' (Some 0) (Some 1)
       = Inr (Some ''skipped'')"
proof -
  have h2: "abspath (cwd sample_world) ''/etc/hosts'' = Some ''/etc/hosts''"
    by (simp add: path_eval sample_eval)
  have h3: "''/etc'' \<in> whitelist_paths sample_scanner"
    by (simp add: sample_eval)
  have h4: "startswith ''/etc/hosts'' (''/etc'' @ sep)"
    by (simp add: path_eval)
  from whitelist_supremacy [OF stat_hosts h2 h3 disjI2 [OF h4]] stat_hosts h2 h3 h4
  show ?thesis by simp
qed

text \<open>
  C1 as stated fails: the path \<open>/etc/../tmp/app.tmp\<close> starts with the whitelist entry
  \<open>/etc\<close> followed by the separator and its metadata can be read, but
  \<open>os.path.abspath\<close> makes it \<open>/tmp/app.tmp\<close>, which is under no entry, and the file is
  classified \<open>junk\<close>.
\<close>

theorem whitelist_textual_prefix_counterexample:
  "os_stat sample_world ''/etc/../tmp/app.tmp'' = Inr (827200, 2048)
   \<and> ''/etc'' \<in> whitelist_paths sample_scanner
   \<and> startswith ''/etc/../tmp/app.tmp'' (''/etc'' @ sep)
   \<and> classify_file sample_scanner sample_world ''/etc/../tmp/app.tmp'' None None
       = Inr (Some ''junk'')"
proof -
  have "classify_file sample_scanner sample_world ''/etc/../tmp/app.tmp'' None None
          = Inr (Some ''junk'')"
    by (simp add: classify_file_def stat_dotdot not_whitelisted_dotdot)
       (simp add: path_eval sample_eval)
  moreover have "''/etc'' \<in> whitelist_paths sample_scanner"
    by (simp add: sample_eval)
  moreover have "startswith ''/etc/../tmp/app.tmp'' (''/etc'' @ sep)"
    by (simp add: path_eval)
  ultimately show ?thesis using stat_dotdot by simp
qed

lemma unreadable_metadata:
  "os_stat w P = Inl e \<Longrightarrow>
   classify_file s w P age_seconds size_threshold_bytes = Inr (Some ''skip'')"
  by (simp add: classify_file_def)

text \<open>
  C4. A file whose metadata cannot be read: \<open>_classify_file\<close> raises nothing, but it
  returns the string \<open>skip\<close>, which is not \<open>skipped\<close> and is none of the five
  categories; the scan then reports a sixth category \<open>skip\<close>.
\<close>


theorem unreadable_metadata_returns_skip:
  "os_stat sample_world ''/tmp/gone.log'' = Inl PermissionError
   \<and> classify_file sample_scanner sample_world ''/tmp/gone.log'' (Some 86400) (Some 1024)
       = Inr (Some ''skip'')
   \<and> ''skip'' \<notin> set (map fst initial_found)
   \<and> map fst (lists (scan_all sample_scanner sample_world (Some 86400) (Some 1024)
                        False True [] [] True))
       = [''junk'', ''large'', ''suspicious'', ''harmful'', ''skipped'', ''skip'']
   \<and> dict_get (lists (scan_all sample_scanner sample_world (Some 86400) (Some 1024)
                          False True [] [] True)) ''skip''
       = Some [''/tmp/gone.log'']"
proof -
  have "map fst (lists (scan_all sample_scanner sample_world (Some 86400) (Some 1024)
                         False True [] [] True))
        = [''junk'', ''large'', ''suspicious'', ''harmful'', ''skipped'', ''skip'']"
    by code_simp
  moreover have "dict_get (lists (scan_all sample_scanner sample_world (Some 86400) (Some 1024)
                         False True [] [] True)) ''skip'' = Some [''/tmp/gone.log'']"
    by code_simp
  ultimately show ?thesis
    using unreadable_metadata [OF stat_gone] stat_gone by (simp add: initial_found_def)
qed

lemma inside_any_absolute:
  assumes "startswith P ''/''" and "\<forall>d \<in> set ds. startswith d ''/''"
  shows "\<exists>b. inside_any P ds = Inr b"
  using assms by (induction ds) (auto simp: commonpath_def)

lemma classify_file_dangerous:
  assumes "os_stat w P = Inr (mtime, sz)"
    and "\<not> is_under_whitelist s w P"
    and "\<not> (case age_seconds of None \<Rightarrow> False | Some a \<Rightarrow> now w - mtime < real_of_int a)"
    and "lower (suffix_of P) \<in> potentially_dangerous_extensions s"
  shows "classify_file s w P age_seconds thr =
      (case inside_any P (download_dirs s @ temp_dirs s) of
         Inl e \<Rightarrow> Inl e
       | Inr b \<Rightarrow> if b then Inr (Some ''harmful'') else Inr (Some ''skipped''))"
  using assms by (simp add: classify_file_def Let_def)

lemma sample_dangerous: "''.exe'' \<in> potentially_dangerous_extensions sample_scanner"
  by (simp add: sample_scanner_def)

lemma classify_file_fallback:
  assumes "os_stat w P = Inr (mtime, sz)"
    and "\<not> is_under_whitelist s w P"
    and "\<not> (case age_seconds of None \<Rightarrow> False | Some a \<Rightarrow> now w - mtime < real_of_int a)"
    and "lower (suffix_of P) \<notin> potentially_dangerous_extensions s"
    and "lower (suffix_of P) \<notin> suspicious_script_extensions s"
    and "lower (suffix_of P) \<notin> junk_extensions s"
  shows "classify_file s w P age_seconds size_threshold_bytes =
      (if (case size_threshold_bytes of None \<Rightarrow> False
           | Some t \<Rightarrow> t \<noteq> 0 \<and> sz \<ge> max t (20 * 1024 * 1024)) then
         (case inside_any P (download_dirs s @ temp_dirs s) of
            Inl e \<Rightarrow> Inl e
          | Inr b \<Rightarrow>
              if b then Inr (Some ''large'')
              else (case inside_any P (browser_cache_dirs s) of
                      Inl e \<Rightarrow> Inl e
                    | Inr c \<Rightarrow> if c then Inr (Some ''junk'') else Inr None))
       else Inr None)"
  using assms by (simp add: classify_file_def Let_def)

lemma sample_iso_plain:
  "''.iso'' \<notin> potentially_dangerous_extensions sample_scanner"
  "''.iso'' \<notin> suspicious_script_extensions sample_scanner"
  "''.iso'' \<notin> junk_extensions sample_scanner"
  by (simp_all add: sample_scanner_def)

lemma sample_big_old:
  "\<not> (case Some (86400::int) of None \<Rightarrow> False
       | Some a \<Rightarrow> now sample_world - 136000 < real_of_int a)"
  by (simp add: sample_now)

section \<open>Disposal\<close>

lemma sample_exists_paths:
  "exists sample_world ''/tmp/app.tmp''"
  "exists sample_world ''/opt''"
  "\<not> exists sample_world ''/nope''"
  by (simp_all add: path_eval fs_eval sample_eval)

lemma clean_loop_no_trash:
  assumes "\<not> use_trash c"
  shows "clean_loop c False False w results errors paths =
           (w, results,
            errors @ map (\<lambda>p. (p, if exists w p then ''send2trash_not_available''
                                  else ''NotFound'')) paths)"
  using assms by (induction paths arbitrary: errors) (simp_all add: clean_path_def)

text \<open>
  C6. Without a trash mechanism, with \<open>dry_run\<close> and \<open>force\<close> both false, \<open>clean_paths\<close>
  leaves the file system as it was, returns no result, and returns for every path of the
  list one error: \<open>send2trash_not_available\<close> if the path exists, \<open>NotFound\<close> if not.
\<close>

theorem disposal_fails_closed:
  assumes "\<not> use_trash c"
  shows "clean_paths c w paths False False =
           (w, [],
            map (\<lambda>p. (p, if exists w p then ''send2trash_not_available'' else ''NotFound''))
              paths)"
  using clean_loop_no_trash [OF assms, of w "[]" "[]" paths] by (simp add: clean_paths_def)

theorem disposal_fails_closed_witness:
  "\<not> use_trash \<lparr>use_trash = False\<rparr>
   \<and> clean_paths \<lparr>use_trash = False\<rparr> sample_world [''/tmp/app.tmp'', ''/nope'', ''/opt'']
         False False =
       (sample_world, [],
        [(''/tmp/app.tmp'', ''send2trash_not_available''), (''/nope'', ''NotFound''),
         (''/opt'', ''send2trash_not_available'')])"
proof -
  have h: "\<not> use_trash \<lparr>use_trash = False\<rparr>" by simp
  show ?thesis
    using disposal_fails_closed [OF h, of sample_world "[''/tmp/app.tmp'', ''/nope'', ''/opt'']"]
    by (simp add: sample_exists_paths)
qed

lemma clean_loop_dry_run:
  "clean_loop c True force w results errors paths =
     (w, results @ map (\<lambda>p. (p, intended_action c force)) (filter (exists w) paths),
         errors @ map (\<lambda>p. (p, ''NotFound'')) (filter (\<lambda>p. \<not> exists w p) paths))"
  by (induction paths arbitrary: results errors)
     (simp_all add: clean_path_def intended_action_def)

text \<open>
  C7. With \<open>dry_run\<close> true, whatever \<open>force\<close> is, \<open>clean_paths\<close> leaves the file system as
  it was, so every path of the list that existed still exists; the results are, for the
  existing paths in order, the action each would receive (\<open>trashed\<close> with a trash
  mechanism, else \<open>deleted\<close> with \<open>force\<close>, else \<open>would_delete_but_no_trash\<close>), and the
  paths that do not exist are reported \<open>NotFound\<close>.
\<close>

theorem dry_run_non_destructive:
  "clean_paths c w paths True force =
     (w, map (\<lambda>p. (p, if use_trash c then ''trashed''
                       else if force then ''deleted'' else ''would_delete_but_no_trash''))
           (filter (exists w) paths),
         map (\<lambda>p. (p, ''NotFound'')) (filter (\<lambda>p. \<not> exists w p) paths))
   \<and> (\<forall>p \<in> set paths. exists w p \<longrightarrow> exists (fst (clean_paths c w paths True force)) p)"
  using clean_loop_dry_run [of c force w "[]" "[]" paths]
  by (simp add: clean_paths_def intended_action_def)

theorem dry_run_non_destructive_witness:
  "clean_paths \<lparr>use_trash = False\<rparr> sample_world [''/tmp/app.tmp'', ''/nope'', ''/opt''] True True =
     (sample_world, [(''/tmp/app.tmp'', ''deleted''), (''/opt'', ''deleted'')],
      [(''/nope'', ''NotFound'')])
   \<and> exists sample_world ''/tmp/app.tmp''
   \<and> exists (fst (clean_paths \<lparr>use_trash = False\<rparr> sample_world
                     [''/tmp/app.tmp'', ''/nope'', ''/opt''] True True)) ''/tmp/app.tmp''"
  using dry_run_non_destructive
          [of "\<lparr>use_trash = False\<rparr>" sample_world "[''/tmp/app.tmp'', ''/nope'', ''/opt'']" True]
  by (simp add: sample_exists_paths)

lemma clean_path_outcome:
  "(\<exists>w' m. clean_path c dry force w p = (w', Inl (p, m)))
   \<or> (\<exists>w' a. clean_path c dry force w p = (w', Inr (p, a)))"
  by (auto simp: clean_path_def split: sum.splits prod.splits option.splits)

lemma clean_loop_outcomes:
  assumes "clean_loop c dry force w results errors paths = (w', results', errors')"
  shows "\<exists>rs es. results' = results @ rs \<and> errors' = errors @ es
           \<and> mset (map fst rs) + mset (map fst es) = mset paths
           \<and> subseq (map fst rs) paths \<and> subseq (map fst es) paths"
  using assms
proof (induction paths arbitrary: w results errors)
  case Nil
  then show ?case by simp
next
  case (Cons p ps)
  from clean_path_outcome [of c dry force w p] show ?case
  proof (elim disjE exE)
    fix w1 m
    assume step: "clean_path c dry force w p = (w1, Inl (p, m))"
    with Cons.prems have "clean_loop c dry force w1 results (errors @ [(p, m)]) ps
        = (w', results', errors')"
      by simp
    from Cons.IH [OF this] obtain rs es where
      "results' = results @ rs" "errors' = (errors @ [(p, m)]) @ es"
      "mset (map fst rs) + mset (map fst es) = mset ps"
      "subseq (map fst rs) ps" "subseq (map fst es) ps"
      by blast
    then have "results' = results @ rs \<and> errors' = errors @ ((p, m) # es)
        \<and> mset (map fst rs) + mset (map fst ((p, m) # es)) = mset (p # ps)
        \<and> subseq (map fst rs) (p # ps) \<and> subseq (map fst ((p, m) # es)) (p # ps)"
      by (simp add: list_emb_Cons)
    then show ?thesis by blast
  next
    fix w1 a
    assume step: "clean_path c dry force w p = (w1, Inr (p, a))"
    with Cons.prems have "clean_loop c dry force w1 (results @ [(p, a)]) errors ps
        = (w', results', errors')"
      by simp
    from Cons.IH [OF this] obtain rs es where
      "results' = (results @ [(p, a)]) @ rs" "errors' = errors @ es"
      "mset (map fst rs) + mset (map fst es) = mset ps"
      "subseq (map fst rs) ps" "subseq (map fst es) ps"
      by blast
    then have "results' = results @ ((p, a) # rs) \<and> errors' = errors @ es
        \<and> mset (map fst ((p, a) # rs)) + mset (map fst es) = mset (p # ps)
        \<and> subseq (map fst ((p, a) # rs)) (p # ps) \<and> subseq (map fst es) (p # ps)"
      by (simp add: list_emb_Cons)
    then show ?thesis by blast
  qed
qed

text \<open>
  C10. \<open>clean_paths\<close> returns for every list of paths, in every mode: each occurrence of
  a path in the input has exactly one outcome, a result or an error (as multisets, the
  paths of the results and of the errors together are the input, so the two lists have
  as many entries as the input, and when no path is listed twice each input path appears
  exactly once across the two lists); each of the two lists keeps the input order; no
  failure ends the loop early.
\<close>

theorem every_path_one_outcome:
  "\<exists>w' results errors.
     clean_paths c w paths dry force = (w', results, errors)
     \<and> mset (map fst results) + mset (map fst errors) = mset paths
     \<and> length results + length errors = length paths
     \<and> subseq (map fst results) paths
     \<and> subseq (map fst errors) paths
     \<and> (distinct paths \<longrightarrow>
            distinct (map fst results @ map fst errors)
            \<and> set (map fst results @ map fst errors) = set paths)"
proof -
  obtain w' results errors where run: "clean_paths c w paths dry force = (w', results, errors)"
    by (cases "clean_paths c w paths dry force") auto
  then have "clean_loop c dry force w [] [] paths = (w', results, errors)"
    by (simp add: clean_paths_def)
  from clean_loop_outcomes [OF this] have parts:
    "mset (map fst results) + mset (map fst errors) = mset paths"
    "subseq (map fst results) paths" "subseq (map fst errors) paths"
    by auto
  from parts(1) have "size (mset (map fst results) + mset (map fst errors)) = size (mset paths)"
    by simp
  then have len: "length results + length errors = length paths"
    by simp
  from parts(1) have both: "mset (map fst results @ map fst errors) = mset paths"
    by simp
  have once: "distinct paths \<longrightarrow>
      distinct (map fst results @ map fst errors)
      \<and> set (map fst results @ map fst errors) = set paths"
    using mset_eq_imp_distinct_iff [OF both] mset_eq_setD [OF both] by blast
  from run parts len once show ?thesis by blast
qed


theorem every_path_one_outcome_witness:
  "\<exists>w' m. clean_paths \<lparr>use_trash = False\<rparr> sample_world
          [''/tmp/app.tmp'', ''/nope'', ''/tmp/busy.tmp'', ''/opt/tools/setup.exe''] False True =
        (w', [(''/tmp/app.tmp'', ''deleted''), (''/opt/tools/setup.exe'', ''deleted'')],
             [(''/nope'', ''NotFound''), (''/tmp/busy.tmp'', m)])"
proof -
  have run: "snd (clean_paths \<lparr>use_trash = False\<rparr> sample_world
        [''/tmp/app.tmp'', ''/nope'', ''/tmp/busy.tmp'', ''/opt/tools/setup.exe''] False True) =
      ([(''/tmp/app.tmp'', ''deleted''), (''/opt/tools/setup.exe'', ''deleted'')],
       [(''/nope'', ''NotFound''), (''/tmp/busy.tmp'', str_exn PermissionError)])"
    by code_simp
  from every_path_one_outcome
         [of "\<lparr>use_trash = False\<rparr>" sample_world
             "[''/tmp/app.tmp'', ''/nope'', ''/tmp/busy.tmp'', ''/opt/tools/setup.exe'']"
             False True]
  obtain w' results errors where
    "clean_paths \<lparr>use_trash = False\<rparr> sample_world
       [''/tmp/app.tmp'', ''/nope'', ''/tmp/busy.tmp'', ''/opt/tools/setup.exe''] False True
     = (w', results, errors)"
    by blast
  with run show ?thesis by simp
qed

section \<open>Traversal\<close>

lemma dict_get_set:
  "dict_get (dict_set d k v) k' = (if k' = k then Some v else dict_get d k')"
  by (induction d) (auto simp: dict_get_def)

lemma store_get:
  "dict_get (store found category_limits cat p) k =
     (if k = cat
      then Some (if at_limit category_limits found cat then stored_of found cat
                 else stored_of found cat @ [p])
      else dict_get found k)"
  by (cases "dict_get found cat")
     (simp_all add: store_def Let_def dict_get_set stored_of_def at_limit_def
        split: option.splits)

lemma collect_files_grows:
  assumes "dict_get found k = Some l"
  shows "\<exists>l'. dict_get (collect_files s w a t cl found ps) k = Some (l @ l')"
  using assms
proof (induction ps arbitrary: found l)
  case Nil
  then show ?case by simp
next
  case (Cons p ps)
  show ?case
  proof (cases "classify_caught s w p a t")
    case None
    with Cons show ?thesis by simp
  next
    case (Some cat)
    have "\<exists>l1. dict_get (store found cl cat p) k = Some (l @ l1)"
      using Cons.prems by (auto simp: store_get stored_of_def)
    then obtain l1 where "dict_get (store found cl cat p) k = Some (l @ l1)" ..
    from Cons.IH [OF this] obtain l2 where
      "dict_get (collect_files s w a t cl (store found cl cat p) ps) k = Some ((l @ l1) @ l2)" ..
    with Some show ?thesis by auto
  qed
qed

lemma collect_files_contains:
  assumes "p \<in> set ps"
    and "classify_caught s w p a t = Some cat"
    and "dict_get cl cat = None"
  shows "\<exists>l. dict_get (collect_files s w a t cl found ps) cat = Some l \<and> p \<in> set l"
  using assms(1)
proof (induction ps arbitrary: found)
  case Nil
  then show ?case by simp
next
  case (Cons x ps)
  show ?case
  proof (cases "x = p")
    case True
    have "dict_get (store found cl cat p) cat = Some (stored_of found cat @ [p])"
      using assms(3) by (simp add: store_get at_limit_def)
    from collect_files_grows [OF this, of s w a t cl ps] obtain l' where
      "dict_get (collect_files s w a t cl (store found cl cat p) ps) cat
         = Some ((stored_of found cat @ [p]) @ l')" ..
    with True assms(2) show ?thesis by simp
  next
    case False
    with Cons.prems have "p \<in> set ps" by simp
    from Cons.IH [OF this] show ?thesis by simp
  qed
qed

lemma store_sound:
  assumes "found_sound s w a t found" and "classify_caught s w p a t = Some cat"
  shows "found_sound s w a t (store found cl cat p)"
  unfolding found_sound_def
proof (intro allI impI)
  fix k l q
  assume h: "dict_get (store found cl cat p) k = Some l \<and> q \<in> set l"
  show "classify_caught s w q a t = Some k"
  proof (cases "k = cat")
    case False
    with h assms(1) show ?thesis by (auto simp: store_get found_sound_def)
  next
    case True
    with h have "q \<in> set (stored_of found cat) \<or> q = p"
      by (auto simp: store_get split: if_splits)
    then show ?thesis
    proof
      assume "q = p"
      with assms(2) True show ?thesis by simp
    next
      assume "q \<in> set (stored_of found cat)"
      then obtain l0 where "dict_get found cat = Some l0" "q \<in> set l0"
        by (cases "dict_get found cat") (auto simp: stored_of_def)
      with assms(1) True show ?thesis by (auto simp: found_sound_def)
    qed
  qed
qed

lemma collect_files_sound:
  assumes "found_sound s w a t found"
  shows "found_sound s w a t (collect_files s w a t cl found ps)"
  using assms
proof (induction ps arbitrary: found)
  case Nil
  then show ?case by simp
next
  case (Cons p ps)
  show ?case
  proof (cases "classify_caught s w p a t")
    case None
    with Cons show ?thesis by simp
  next
    case (Some cat)
    from store_sound [OF Cons.prems Some] have "found_sound s w a t (store found cl cat p)" .
    from Cons.IH [OF this] Some show ?thesis by simp
  qed
qed

lemma initial_found_sound: "found_sound s w a t initial_found"
  by (auto simp: found_sound_def initial_found_def dict_get_def split: if_splits)

lemma whitelisted_caught:
  assumes "is_under_whitelist s w p" and "os_stat w p = Inr st"
  shows "classify_caught s w p a t = Some ''skipped''"
  using assms by (cases st) (simp add: classify_caught_def classify_file_def)

text \<open>
  C2, as amended. The traversal does not consult the whitelist: \<open>_walk_and_collect\<close>
  walks every scanned folder completely, and a file under a whitelist entry is visited
  and classified like any other file. When its metadata can be read it is classified
  \<open>skipped\<close>: with no limit on that category the report lists it under \<open>skipped\<close>, and
  the report lists it under no other category.
\<close>

theorem whitelisted_files_visited_and_skipped:
  assumes "p \<in> set (visited_files w
                      (scan_folders s w include_downloads include_browser_cache extra_scan_dirs))"
    and "is_under_whitelist s w p"
    and "os_stat w p = Inr st"
    and "dict_get category_limits ''skipped'' = None"
  shows "(\<exists>l. dict_get (lists (scan_all s w age_seconds size_threshold_bytes include_downloads
                               include_browser_cache extra_scan_dirs category_limits dry))
               ''skipped'' = Some l \<and> p \<in> set l)
         \<and> (\<forall>cat l. cat \<noteq> ''skipped''
               \<and> dict_get (lists (scan_all s w age_seconds size_threshold_bytes include_downloads
                                    include_browser_cache extra_scan_dirs category_limits dry))
                    cat = Some l
               \<longrightarrow> p \<notin> set l)"
proof -
  let ?folders = "scan_folders s w include_downloads include_browser_cache extra_scan_dirs"
  let ?found = "collect_files s w age_seconds size_threshold_bytes category_limits initial_found
                  (visited_files w ?folders)"
  have lists_eq: "lists (scan_all s w age_seconds size_threshold_bytes include_downloads
                    include_browser_cache extra_scan_dirs category_limits dry) = ?found"
    by (simp add: scan_all_def walk_and_collect_def Let_def)
  have skipped: "classify_caught s w p age_seconds size_threshold_bytes = Some ''skipped''"
    using assms(2,3) by (rule whitelisted_caught)
  have listed: "\<exists>l. dict_get ?found ''skipped'' = Some l \<and> p \<in> set l"
    using assms(1) skipped assms(4) by (rule collect_files_contains)
  have sound: "found_sound s w age_seconds size_threshold_bytes ?found"
    using initial_found_sound by (rule collect_files_sound)
  have others: "\<forall>cat l. cat \<noteq> ''skipped'' \<and> dict_get ?found cat = Some l \<longrightarrow> p \<notin> set l"
  proof (intro allI impI notI)
    fix cat l
    assume "cat \<noteq> ''skipped'' \<and> dict_get ?found cat = Some l" and "p \<in> set l"
    with sound have "classify_caught s w p age_seconds size_threshold_bytes = Some cat"
      unfolding found_sound_def by blast
    with skipped \<open>cat \<noteq> ''skipped'' \<and> dict_get ?found cat = Some l\<close> show False by simp
  qed
  from listed others show ?thesis unfolding lists_eq by blast
qed


theorem whitelisted_files_visited_and_skipped_witness:
  "''/var/tmp/a.log'' \<in> set (visited_files sample_world
       (scan_folders sample_scanner sample_world False True [''/var/tmp'']))
   \<and> is_under_whitelist sample_scanner sample_world ''/var/tmp/a.log''
   \<and> os_stat sample_world ''/var/tmp/a.log'' = Inr (136000, 3000)
   \<and> dict_get ([] :: int dict) ''skipped'' = None
   \<and> (\<exists>l. dict_get (lists (scan_all sample_scanner sample_world (Some 86400) (Some 1024)
                              False True [''/var/tmp''] [] True)) ''skipped'' = Some l
            \<and> ''/var/tmp/a.log'' \<in> set l)"
proof -
  have h1: "''/var/tmp/a.log'' \<in> set (visited_files sample_world
       (scan_folders sample_scanner sample_world False True [''/var/tmp'']))"
    by code_simp
  have h2: "is_under_whitelist sample_scanner sample_world ''/var/tmp/a.log''"
    by (simp add: is_under_whitelist_def path_eval sample_eval)
  have h3: "os_stat sample_world ''/var/tmp/a.log'' = Inr (136000, 3000)"
    by (simp add: path_eval fs_eval sample_eval)
  have h4: "dict_get ([] :: int dict) ''skipped'' = None"
    by (simp add: dict_get_def)
  from whitelisted_files_visited_and_skipped [OF h1 h2 h3 h4, of "Some 86400" "Some 1024" True]
  have "\<exists>l. dict_get (lists (scan_all sample_scanner sample_world (Some 86400) (Some 1024)
                              False True [''/var/tmp''] [] True)) ''skipped'' = Some l
            \<and> ''/var/tmp/a.log'' \<in> set l"
    by blast
  with h1 h2 h3 h4 show ?thesis by blast
qed

text \<open>
  C2 as stated fails: with \<open>extra_scan_dirs = ['/var/tmp']\<close> the scanned folder
  \<open>/var/tmp\<close> lies under the whitelist entry \<open>/var\<close>; the scan walks it all the same,
  visits \<open>/var/tmp/a.log\<close> and reports it in the \<open>skipped\<close> list.
\<close>

theorem whitelisted_subtree_entered_counterexample:
  "''/var'' \<in> whitelist_paths sample_scanner
   \<and> is_under_whitelist sample_scanner sample_world ''/var/tmp''
   \<and> ''/var/tmp/a.log'' \<in> set (visited_files sample_world
         (scan_folders sample_scanner sample_world False True [''/var/tmp'']))
   \<and> dict_get (lists (scan_all sample_scanner sample_world (Some 86400) (Some 1024)
                         False True [''/var/tmp''] [] True)) ''skipped''
       = Some [''/var/tmp/a.log'']"
proof -
  have "''/var'' \<in> whitelist_paths sample_scanner"
    by (simp add: sample_eval)
  moreover have "is_under_whitelist sample_scanner sample_world ''/var/tmp''"
    by (simp add: is_under_whitelist_def path_eval sample_eval)
  moreover have "''/var/tmp/a.log'' \<in> set (visited_files sample_world
         (scan_folders sample_scanner sample_world False True [''/var/tmp'']))"
    by code_simp
  moreover have "dict_get (lists (scan_all sample_scanner sample_world (Some 86400) (Some 1024)
                         False True [''/var/tmp''] [] True)) ''skipped''
       = Some [''/var/tmp/a.log'']"
    by code_simp
  ultimately show ?thesis by blast
qed


section \<open>The whitelist on a host that is not Windows\<close>

lemma unix_entry_normal:
  assumes "p \<in> {''/'', ''/bin'', ''/sbin'', ''/usr'', ''/usr/bin'', ''/usr/sbin'',
                 ''/lib'', ''/lib64'', ''/etc'', ''/var'', ''/System'', ''/Applications''}"
  shows "startswith p ''/'' \<and> normpath p = p"
  using assms by (auto simp: path_eval)

lemma configured_unix_normal:
  assumes "system w \<noteq> ''Windows''" and "p \<in> configured_whitelist w"
  shows "startswith p ''/'' \<and> normpath p = p"
proof -
  have "p \<in> {''/'', ''/bin'', ''/sbin'', ''/usr'', ''/usr/bin'', ''/usr/sbin'',
              ''/lib'', ''/lib64'', ''/etc'', ''/var'', ''/System'', ''/Applications''}"
    using assms by (auto simp: configured_whitelist_unix split: if_splits)
  then show ?thesis by (rule unix_entry_normal)
qed

lemma Optimizer_whitelist_unix:
  assumes "system w \<noteq> ''Windows''"
  shows "Optimizer_get_whitelist_paths w = Some {p \<in> configured_whitelist w. exists w p}"
proof -
  let ?wl = "{p \<in> configured_whitelist w. exists w p}"
  have img: "(\<lambda>p. the (abspath (cwd w) p)) ` ?wl = ?wl"
    using abspath_configured_unix [OF assms] by force
  have none: "\<not> (\<exists>p \<in> ?wl. abspath (cwd w) p = None)"
    using abspath_configured_unix [OF assms] by auto
  show ?thesis
    unfolding Optimizer_get_whitelist_paths_def Let_def img
    using none by (simp only: if_False)
qed

lemma sample_exists_whitelist:
  "exists sample_world ''/''" "exists sample_world ''/bin''" "exists sample_world ''/sbin''"
  "exists sample_world ''/usr''" "exists sample_world ''/usr/bin''"
  "exists sample_world ''/usr/sbin''" "exists sample_world ''/lib''"
  "exists sample_world ''/etc''" "exists sample_world ''/var''"
  by (simp_all add: path_eval fs_eval sample_eval)

section \<open>Disk optimisation\<close>

subsection \<open>Removing entries only shrinks the file system\<close>

lemma remove_at_Nil [simp]: "remove_at n [] = n"
  by (cases n) auto

lemma remove_at_name [simp]: "node_name (remove_at n cs) = node_name n"
  by (induction n cs rule: remove_at.induct) auto

lemma remove_at_stat [simp]: "node_stat (remove_at n cs) = node_stat n"
  by (induction n cs rule: remove_at.induct) auto

lemma remove_at_is_dir [simp]: "is_dir (remove_at n cs) = is_dir n"
  by (induction n cs rule: remove_at.induct) auto

lemma child_filter:
  "child (filter (\<lambda>n. node_name n \<noteq> c) es) k = (if k = c then None else child es k)"
  by (induction es) auto

lemma child_map:
  assumes "\<And>n. node_name (f n) = node_name n"
  shows "child (map f es) k = map_option f (child es k)"
  using assms by (induction es) auto

lemma remove_at_File [simp]: "remove_at (File nm st rm) cs = File nm st rm"
  by (cases "(File nm st rm, cs)" rule: remove_at.cases) auto

lemma child_remove_at:
  assumes "remove_at (Dir nm st rm ls es) cs = Dir nm' st' rm' ls' es'"
    and "child es' c = Some m'"
  shows "\<exists>m rest. child es c = Some m \<and> m' = remove_at m rest"
proof (cases cs)
  case Nil
  with assms have "child es c = Some m'" by simp
  then have "child es c = Some m' \<and> m' = remove_at m' []" by simp
  then show ?thesis by blast
next
  case (Cons k ks)
  show ?thesis
  proof (cases ks)
    case Nil
    with Cons assms have "child es c = Some m'"
      by (auto simp: child_filter split: if_splits)
    then have "child es c = Some m' \<and> m' = remove_at m' []" by simp
    then show ?thesis by blast
  next
    case (Cons k' ks')
    let ?f = "\<lambda>n. if node_name n = k then remove_at n (k' # ks') else n"
    from Cons \<open>cs = k # ks\<close> assms(1) have es': "es' = map ?f es" by simp
    have "child (map ?f es) c = map_option ?f (child es c)"
      by (rule child_map) simp
    with es' assms(2) obtain m where m: "child es c = Some m" "m' = ?f m"
      by auto
    show ?thesis
    proof (cases "node_name m = k")
      case True
      with m have "child es c = Some m \<and> m' = remove_at m (k' # ks')" by simp
      then show ?thesis by blast
    next
      case False
      with m have "child es c = Some m \<and> m' = remove_at m []" by simp
      then show ?thesis by blast
    qed
  qed
qed

lemma remove_at_Dir_shape:
  "\<exists>es'. remove_at (Dir nm st rm ls es) cs = Dir nm st rm ls es'"
  by (cases "(Dir nm st rm ls es, cs)" rule: remove_at.cases) auto

lemma lookup_remove_at:
  assumes "lookup (remove_at r cs) pos = Some n'"
  shows "\<exists>n rest. lookup r pos = Some n \<and> n' = remove_at n rest"
  using assms
proof (induction pos arbitrary: r cs n')
  case Nil
  then show ?case by auto
next
  case (Cons c pos)
  show ?case
  proof (cases r)
    case (File nm st rm)
    with Cons.prems show ?thesis by simp
  next
    case (Dir nm st rm ls es)
    from remove_at_Dir_shape obtain es' where
      shape: "remove_at (Dir nm st rm ls es) cs = Dir nm st rm ls es'" by blast
    with Cons.prems Dir obtain m' where
      m': "child es' c = Some m'" "lookup m' pos = Some n'"
      by (auto split: option.splits)
    from child_remove_at [OF shape m'(1)] obtain m rest where
      m: "child es c = Some m" "m' = remove_at m rest" by blast
    with m'(2) have "lookup (remove_at m rest) pos = Some n'" by simp
    from Cons.IH [OF this] obtain n rest' where
      "lookup m pos = Some n" "n' = remove_at n rest'" by blast
    with m(1) Dir have "lookup r (c # pos) = Some n \<and> n' = remove_at n rest'" by simp
    then show ?thesis by blast
  qed
qed

lemma resolve_from_remove_at:
  assumes "resolve_from (remove_at r cs) pos comps = Some q"
  shows "resolve_from r pos comps = Some q"
  using assms
proof (induction comps arbitrary: pos)
  case Nil
  then show ?case by simp
next
  case (Cons c comps)
  from Cons.prems obtain nm st rm ls es' where
    here': "lookup (remove_at r cs) pos = Some (Dir nm st rm ls es')"
    by (auto split: option.splits node.splits)
  from lookup_remove_at [OF this] obtain n rest where
    n: "lookup r pos = Some n" "Dir nm st rm ls es' = remove_at n rest" by blast
  then obtain nm0 st0 rm0 ls0 es where nd: "n = Dir nm0 st0 rm0 ls0 es"
    by (cases n) auto
  with n have here: "lookup r pos = Some (Dir nm0 st0 rm0 ls0 es)"
    and shape: "remove_at (Dir nm0 st0 rm0 ls0 es) rest = Dir nm st rm ls es'"
    by simp_all
  show ?case
  proof (cases "c = [] \<or> c = ''.''")
    case True
    with Cons.prems here' have "resolve_from (remove_at r cs) pos comps = Some q" by auto
    from Cons.IH [OF this] True here show ?thesis by auto
  next
    case False
    show ?thesis
    proof (cases "c = ''..''")
      case True
      with Cons.prems here' have "resolve_from (remove_at r cs) (butlast pos) comps = Some q"
        by auto
      from Cons.IH [OF this] True here show ?thesis by auto
    next
      case notdd: False
      with False Cons.prems here' obtain m' where
        m': "child es' c = Some m'"
        and rest: "resolve_from (remove_at r cs) (pos @ [c]) comps = Some q"
        by (auto split: option.splits)
      from child_remove_at [OF shape m'] obtain m where "child es c = Some m" by blast
      with Cons.IH [OF rest] False notdd here show ?thesis by auto
    qed
  qed
qed

lemma walk_paths_File [simp]: "walk_paths topdir (File nm st rm) = {}"
  by (simp add: walk_paths_def)

lemma walk_paths_Dir:
  "walk_paths topdir (Dir nm st rm ls es) =
     (if \<not> ls then {}
      else {join topdir (node_name f) | f. f \<in> set es \<and> \<not> is_dir f}
           \<union> (\<Union>m \<in> {m \<in> set es. is_dir m}. walk_paths (join topdir (node_name m)) m))"
  by (auto simp: walk_paths_def)

lemma walk_paths_remove_at:
  "walk_paths topdir (remove_at n rest) \<subseteq> walk_paths topdir n"
proof (induction n arbitrary: topdir rest)
  case (File nm st rm)
  then show ?case by simp
next
  case (Dir nm st rm ls es)
  show ?case
  proof (cases rest)
    case Nil
    then show ?thesis by simp
  next
    case (Cons k ks)
    show ?thesis
    proof (cases ks)
      case Nil
      with Cons show ?thesis by (auto simp: walk_paths_Dir)
    next
      case (Cons k' ks')
      let ?f = "\<lambda>n. if node_name n = k then remove_at n (k' # ks') else n"
      have eq: "remove_at (Dir nm st rm ls es) rest = Dir nm st rm ls (map ?f es)"
        using Cons \<open>rest = k # ks\<close> by simp
      have sub: "walk_paths t (?f m) \<subseteq> walk_paths t m" if "m \<in> set es" for m t
        using Dir.IH [OF that] by simp
      have fname: "node_name (?f m) = node_name m" and fdir: "is_dir (?f m) = is_dir m" for m
        by simp_all
      show ?thesis
      proof
        fix x
        assume "x \<in> walk_paths topdir (remove_at (Dir nm st rm ls es) rest)"
        then have x: "ls"
          "(\<exists>g. x = join topdir (node_name g) \<and> g \<in> set (map ?f es) \<and> \<not> is_dir g)
           \<or> (\<exists>g. g \<in> set (map ?f es) \<and> is_dir g
                  \<and> x \<in> walk_paths (join topdir (node_name g)) g)"
          unfolding eq walk_paths_Dir by (auto split: if_splits)
        from x(2) show "x \<in> walk_paths topdir (Dir nm st rm ls es)"
        proof
          assume "\<exists>g. x = join topdir (node_name g) \<and> g \<in> set (map ?f es) \<and> \<not> is_dir g"
          then obtain m where "m \<in> set es" "x = join topdir (node_name (?f m))"
            "\<not> is_dir (?f m)"
            by auto
          then have "x = join topdir (node_name m) \<and> m \<in> set es \<and> \<not> is_dir m"
            unfolding fname fdir by simp
          with x(1) show ?thesis
            unfolding walk_paths_Dir by auto
        next
          assume "\<exists>g. g \<in> set (map ?f es) \<and> is_dir g
                  \<and> x \<in> walk_paths (join topdir (node_name g)) g"
          then obtain m where m: "m \<in> set es" "is_dir (?f m)"
            "x \<in> walk_paths (join topdir (node_name (?f m))) (?f m)"
            by auto
          from m(3) sub [OF m(1)] have "x \<in> walk_paths (join topdir (node_name m)) m"
            unfolding fname by blast
          moreover from m(2) have "is_dir m" unfolding fdir .
          ultimately show ?thesis
            using x(1) m(1) unfolding walk_paths_Dir by auto
        qed
      qed
    qed
  qed
qed

lemma resolve_shrink:
  assumes "resolve (w\<lparr>root := remove_at (root w) cs\<rparr>) p = Some q"
  shows "resolve w p = Some q"
  using assms
  by (auto simp: resolve_def split: if_splits option.splits
      dest!: resolve_from_remove_at)

lemma node_at_shrink:
  assumes "node_at (w\<lparr>root := remove_at (root w) cs\<rparr>) p = Some n'"
  shows "\<exists>n rest. node_at w p = Some n \<and> n' = remove_at n rest"
proof -
  from assms obtain q where
    q: "resolve (w\<lparr>root := remove_at (root w) cs\<rparr>) p = Some q"
    and l: "lookup (remove_at (root w) cs) q = Some n'"
    by (auto simp: node_at_def split: option.splits)
  from resolve_shrink [OF q] have "resolve w p = Some q" .
  moreover from lookup_remove_at [OF l] obtain n rest where
    "lookup (root w) q = Some n" "n' = remove_at n rest" by blast
  ultimately have "node_at w p = Some n \<and> n' = remove_at n rest"
    by (simp add: node_at_def)
  then show ?thesis by blast
qed

lemma os_stat_shrink:
  assumes "os_stat (w\<lparr>root := remove_at (root w) cs\<rparr>) p = Inr st"
  shows "os_stat w p = Inr st"
proof -
  from assms obtain n' where
    n': "node_at (w\<lparr>root := remove_at (root w) cs\<rparr>) p = Some n'" "node_stat n' = Some st"
    by (auto simp: os_stat_def split: option.splits)
  from node_at_shrink [OF n'(1)] obtain n rest where
    "node_at w p = Some n" "n' = remove_at n rest" by blast
  with n'(2) show ?thesis by (simp add: os_stat_def)
qed

lemma walk_files_shrink:
  "set (walk_files (w\<lparr>root := remove_at (root w) cs\<rparr>) folder) \<subseteq> set (walk_files w folder)"
proof (cases "node_at (w\<lparr>root := remove_at (root w) cs\<rparr>) folder")
  case None
  then show ?thesis by (simp add: walk_files_def os_walk_def)
next
  case (Some n')
  from node_at_shrink [OF Some] obtain n rest where
    n: "node_at w folder = Some n" "n' = remove_at n rest" by blast
  have "walk_paths folder (remove_at n rest) \<subseteq> walk_paths folder n"
    by (rule walk_paths_remove_at)
  with Some n show ?thesis
    by (simp add: walk_files_def os_walk_def walk_paths_def)
qed

lemma os_remove_root:
  assumes "os_remove w p = Inr w'"
  shows "\<exists>cs. w' = w\<lparr>root := remove_at (root w) cs\<rparr>"
  using assms
  by (auto simp: os_remove_def split: option.splits node.splits if_splits)

lemma shrunk_refl: "shrunk w w"
  by (simp add: shrunk_def)

lemma shrunk_remove:
  assumes "shrunk w0 w" and "os_remove w p = Inr w'"
  shows "shrunk w0 w'"
proof -
  from os_remove_root [OF assms(2)] obtain cs where
    w': "w' = w\<lparr>root := remove_at (root w) cs\<rparr>" by blast
  have "os_stat w0 q = Inr st" if "os_stat w' q = Inr st" for q st
  proof -
    from that have "os_stat w q = Inr st"
      unfolding w' by (rule os_stat_shrink)
    with assms(1) show ?thesis
      unfolding shrunk_def by blast
  qed
  moreover have "set (walk_files w' folder) \<subseteq> set (walk_files w0 folder)" for folder
  proof -
    have "set (walk_files w' folder) \<subseteq> set (walk_files w folder)"
      unfolding w' by (rule walk_files_shrink)
    moreover from assms(1) have "set (walk_files w folder) \<subseteq> set (walk_files w0 folder)"
      unfolding shrunk_def by blast
    ultimately show ?thesis by (rule subset_trans)
  qed
  moreover have "cwd w' = cwd w0" "now w' = now w0"
    using assms(1) by (simp_all add: w' shrunk_def)
  ultimately show ?thesis by (simp add: shrunk_def)
qed

subsection \<open>The loops of \<open>optimize_disk\<close>\<close>

lemma is_safe_path_cwd:
  "cwd w = cwd w0 \<Longrightarrow> is_safe_path opt w p = is_safe_path opt w0 p"
  by (simp add: is_safe_path_def)

lemma optimize_file_cases:
  "optimize_file opt age dsf (w, removed) fpath = (w, removed)
   \<or> (\<exists>w' mtime sz.
         optimize_file opt age dsf (w, removed) fpath = (w', removed @ [fpath])
         \<and> os_remove w fpath = Inr w'
         \<and> is_safe_path opt w fpath = Inr True
         \<and> os_stat w fpath = Inr (mtime, sz)
         \<and> age \<le> now w - mtime)"
  by (auto simp: optimize_file_def getmtime_def getsize_def
      split: sum.splits prod.splits if_splits)

lemma apply_removals_snoc:
  "os_remove (apply_removals w0 ps) p = Inr w' \<Longrightarrow> apply_removals w0 (ps @ [p]) = w'"
  by (simp add: apply_removals_def)

lemma optimize_file_inv:
  assumes "optimize_inv opt w0 age state"
    and "fpath \<in> set (walk_files w0 folder)"
    and "folder \<in> set (opt_temp_dirs opt)"
  shows "optimize_inv opt w0 age (optimize_file opt age dsf state fpath)"
proof -
  obtain w removed where state: "state = (w, removed)" by (cases state)
  from assms(1) have inv: "shrunk w0 w" "\<forall>p \<in> set removed. removal_permitted opt w0 age p"
    "w = apply_removals w0 removed"
    unfolding optimize_inv_def state by auto
  from optimize_file_cases [of opt age dsf w removed fpath] show ?thesis
  proof (elim disjE exE conjE)
    assume "optimize_file opt age dsf (w, removed) fpath = (w, removed)"
    with assms(1) show ?thesis by (simp add: state)
  next
    fix w' mtime sz
    assume step: "optimize_file opt age dsf (w, removed) fpath = (w', removed @ [fpath])"
      and rm: "os_remove w fpath = Inr w'"
      and safe: "is_safe_path opt w fpath = Inr True"
      and st: "os_stat w fpath = Inr (mtime, sz)"
      and old: "age \<le> now w - mtime"
    from inv(1) have same: "cwd w = cwd w0" "now w = now w0"
      by (simp_all add: shrunk_def)
    from inv(1) st have st0: "os_stat w0 fpath = Inr (mtime, sz)"
      unfolding shrunk_def by blast
    from safe is_safe_path_cwd [OF same(1), of opt fpath]
    have safe0: "is_safe_path opt w0 fpath = Inr True"
      by simp
    have "removal_permitted opt w0 age fpath"
      unfolding removal_permitted_def
      using safe0 st0 old same(2) assms(2,3) by auto
    moreover have "shrunk w0 w'"
      using inv(1) rm by (rule shrunk_remove)
    moreover have "w' = apply_removals w0 (removed @ [fpath])"
      using rm inv(3) by (simp add: apply_removals_snoc)
    ultimately show ?thesis
      using inv(2) by (simp add: optimize_inv_def state step)
  qed
qed

lemma optimize_files_inv:
  assumes "optimize_inv opt w0 age state"
    and "set files \<subseteq> set (walk_files w0 folder)"
    and "folder \<in> set (opt_temp_dirs opt)"
  shows "optimize_inv opt w0 age (foldl (optimize_file opt age dsf) state files)"
  using assms(1,2)
proof (induction files arbitrary: state)
  case Nil
  then show ?case by simp
next
  case (Cons f files)
  from Cons.prems(2) have "f \<in> set (walk_files w0 folder)" by simp
  with Cons.prems(1) have "optimize_inv opt w0 age (optimize_file opt age dsf state f)"
    using assms(3) by (rule optimize_file_inv)
  moreover from Cons.prems(2) have "set files \<subseteq> set (walk_files w0 folder)" by simp
  ultimately show ?case using Cons.IH by simp
qed

lemma optimize_folders_inv:
  assumes "optimize_inv opt w0 age state"
    and "set folders \<subseteq> set (opt_temp_dirs opt)"
  shows "optimize_inv opt w0 age (optimize_folders opt age dsf state folders)"
  using assms
proof (induction folders arbitrary: state)
  case Nil
  then show ?case by simp
next
  case (Cons folder folders)
  from Cons.prems(1) have "shrunk w0 (fst state)"
    unfolding optimize_inv_def by blast
  then have sub: "set (walk_files (fst state) folder) \<subseteq> set (walk_files w0 folder)"
    unfolding shrunk_def by blast
  from Cons.prems(2) have mem: "folder \<in> set (opt_temp_dirs opt)" by simp
  have "optimize_inv opt w0 age
          (foldl (optimize_file opt age dsf) state (walk_files (fst state) folder))"
    using Cons.prems(1) sub mem by (rule optimize_files_inv)
  moreover from Cons.prems(2) have "set folders \<subseteq> set (opt_temp_dirs opt)" by simp
  ultimately show ?case using Cons.IH by simp
qed

lemma optimize_inv_initial: "optimize_inv opt w age (w, [])"
  by (simp add: optimize_inv_def shrunk_refl apply_removals_def)

text \<open>
  C3. Every path \<open>optimize_disk\<close> returns, in the file system the call started in: its
  absolute normalised form neither equals a whitelist entry nor starts with one followed
  by the separator; it is a file that the walk of one of the temp directories yields;
  and its age is at least \<open>max_age_days * 86400\<close> seconds. The file system the call
  leaves is the one it started in after \<open>os.remove\<close> of exactly the returned paths, so
  nothing else is removed.
\<close>

theorem optimize_disk_safe:
  assumes "optimize_disk opt w max_age_days delete_small_files = (w', removed_paths)"
  shows "(\<forall>p \<in> set removed_paths.
            (\<exists>a. abspath (cwd w) p = Some a
                 \<and> (\<forall>W \<in> opt_whitelist_paths opt. a \<noteq> W \<and> \<not> startswith a (W @ sep)))
            \<and> (\<exists>folder \<in> set (opt_temp_dirs opt). p \<in> set (walk_files w folder))
            \<and> (\<exists>mtime sz. os_stat w p = Inr (mtime, sz)
                 \<and> max_age_days * 86400 \<le> now w - mtime))
         \<and> w' = apply_removals w removed_paths"
proof -
  have "optimize_inv opt w (max_age_days * 86400)
          (optimize_folders opt (max_age_days * 86400) delete_small_files (w, [])
             (opt_temp_dirs opt))"
    using optimize_inv_initial by (rule optimize_folders_inv) simp
  with assms have inv: "optimize_inv opt w (max_age_days * 86400) (w', removed_paths)"
    by (simp add: optimize_disk_def)
  have "\<exists>a. abspath (cwd w) p = Some a
           \<and> (\<forall>W \<in> opt_whitelist_paths opt. a \<noteq> W \<and> \<not> startswith a (W @ sep))"
    if "is_safe_path opt w p = Inr True" for p
    using that by (auto simp: is_safe_path_def split: option.splits)
  with inv show ?thesis
    unfolding optimize_inv_def removal_permitted_def by auto
qed

lemma sample_Optimizer_init: "Optimizer_init sample_world = Some sample_optimizer"
proof -
  have "{p \<in> configured_whitelist sample_world. exists sample_world p} =
      {''/'', ''/bin'', ''/sbin'', ''/usr'', ''/usr/bin'', ''/usr/sbin'', ''/lib'',
       ''/etc'', ''/var''}"
    using sample_exists_whitelist sample_exists(7)
    by (auto simp: sample_configured linux_whitelist_def)
  then have "Optimizer_get_whitelist_paths sample_world =
      Some {''/'', ''/bin'', ''/sbin'', ''/usr'', ''/usr/bin'', ''/usr/sbin'', ''/lib'',
            ''/etc'', ''/var''}"
    by (simp add: Optimizer_whitelist_unix sample_system)
  moreover have "Optimizer_get_temp_dirs sample_world = [''/tmp'', ''/home/u/.cache'']"
    by (simp add: Optimizer_get_temp_dirs_def sample_system sample_expanduser sample_exists)
  ultimately show ?thesis
    by (simp add: Optimizer_init_def sample_optimizer_def)
qed

theorem optimize_disk_safe_witness:
  "optimize_disk sample_optimizer sample_world 7 True =
     (apply_removals sample_world
        [''/tmp/big.iso'', ''/tmp/build/setup.exe'', ''/home/u/.cache/mozilla/blob.bin''],
      [''/tmp/big.iso'', ''/tmp/build/setup.exe'', ''/home/u/.cache/mozilla/blob.bin''])
   \<and> abspath (cwd sample_world) ''/tmp/big.iso'' = Some ''/tmp/big.iso''
   \<and> ''/tmp/big.iso'' \<in> set (walk_files sample_world ''/tmp'')
   \<and> os_stat sample_world ''/tmp/big.iso'' = Inr (136000, 31457280)
   \<and> (7::real) * 86400 \<le> now sample_world - 136000"
proof -
  have run: "snd (optimize_disk sample_optimizer sample_world 7 True) =
      [''/tmp/big.iso'', ''/tmp/build/setup.exe'', ''/home/u/.cache/mozilla/blob.bin'']"
    by code_simp
  then obtain w' where eq: "optimize_disk sample_optimizer sample_world 7 True =
      (w', [''/tmp/big.iso'', ''/tmp/build/setup.exe'', ''/home/u/.cache/mozilla/blob.bin''])"
    by (cases "optimize_disk sample_optimizer sample_world 7 True") auto
  from optimize_disk_safe [OF eq] have "w' = apply_removals sample_world
      [''/tmp/big.iso'', ''/tmp/build/setup.exe'', ''/home/u/.cache/mozilla/blob.bin'']"
    by blast
  moreover have "abspath (cwd sample_world) ''/tmp/big.iso'' = Some ''/tmp/big.iso''"
    by (simp add: path_eval sample_cwd)
  moreover have "''/tmp/big.iso'' \<in> set (walk_files sample_world ''/tmp'')"
    by code_simp
  ultimately show ?thesis
    using eq stat_big by (simp add: sample_now)
qed


section \<open>Paths in normal form\<close>

subsection \<open>Splitting and joining\<close>

lemma split_sep_nonempty [simp]: "split_sep s \<noteq> []"
  by (induction s) (auto split: list.splits)

lemma split_sep_noslash_word: "noslash x \<Longrightarrow> split_sep x = [x]"
  by (induction x) (auto simp: noslash_def)

lemma split_sep_slash:
  "split_sep (x @ CHR ''/'' # y) = split_sep x @ split_sep y"
  by (induction x) (auto split: list.splits)

lemma split_sep_noslash: "c \<in> set (split_sep s) \<Longrightarrow> noslash c"
  by (induction s arbitrary: c) (auto simp: noslash_def split: list.splits if_splits)

lemma split_join:
  assumes "cs \<noteq> []" and "\<forall>c \<in> set cs. noslash c"
  shows "split_sep (join_sep cs) = cs"
  using assms
proof (induction cs rule: join_sep.induct)
  case 1
  then show ?case by simp
next
  case (2 x)
  then show ?case by (simp add: split_sep_noslash_word)
next
  case (3 x y ys)
  then have "split_sep (join_sep (y # ys)) = y # ys" by simp
  moreover have "split_sep x = [x]" using 3 by (simp add: split_sep_noslash_word)
  ultimately show ?case by (simp add: split_sep_slash)
qed

lemma join_sep_Nil_iff:
  assumes "\<forall>c \<in> set cs. c \<noteq> []"
  shows "join_sep cs = [] \<longleftrightarrow> cs = []"
  using assms by (induction cs rule: join_sep.induct) auto

lemma join_sep_inj:
  assumes "\<forall>c \<in> set xs. c \<noteq> [] \<and> noslash c" and "\<forall>c \<in> set ys. c \<noteq> [] \<and> noslash c"
    and "join_sep xs = join_sep ys"
  shows "xs = ys"
proof -
  have nx: "\<forall>c \<in> set xs. c \<noteq> []" and ny: "\<forall>c \<in> set ys. c \<noteq> []"
    using assms(1,2) by blast+
  have sx: "\<forall>c \<in> set xs. noslash c" and sy: "\<forall>c \<in> set ys. noslash c"
    using assms(1,2) by blast+
  show ?thesis
  proof (cases "xs = []")
    case True
    then have "join_sep ys = []" using assms(3) by simp
    then have "ys = []" using join_sep_Nil_iff [OF ny] by blast
    with True show ?thesis by simp
  next
    case False
    then have "join_sep xs \<noteq> []" using join_sep_Nil_iff [OF nx] by blast
    then have "join_sep ys \<noteq> []" using assms(3) by simp
    then have "ys \<noteq> []" by (cases ys) auto
    have "xs = split_sep (join_sep xs)" using split_join [OF False sx] by (rule sym)
    also have "\<dots> = split_sep (join_sep ys)" by (rule arg_cong [OF assms(3)])
    also have "\<dots> = ys" using \<open>ys \<noteq> []\<close> sy by (rule split_join)
    finally show ?thesis .
  qed
qed

lemma join_sep_head:
  assumes "cs \<noteq> []" and "\<forall>c \<in> set cs. c \<noteq> [] \<and> noslash c"
  shows "join_sep cs \<noteq> [] \<and> hd (join_sep cs) \<noteq> CHR ''/''"
  using assms
  by (induction cs rule: join_sep.induct) (auto simp: noslash_def hd_append dest: hd_in_set)


lemma startswith_Nil [simp]: "startswith s []"
  by (simp add: startswith_def)

lemma startswith_Nil_Cons [simp]: "\<not> startswith [] (d # p)"
  by (simp add: startswith_def)

lemma startswith_Cons [simp]: "startswith (c # s) (d # p) = (c = d \<and> startswith s p)"
  by (auto simp: startswith_def)

lemma startswith_slash_iff: "startswith s ''/'' \<longleftrightarrow> (\<exists>t. s = CHR ''/'' # t)"
  by (cases s) auto

lemma clean_butlast: "clean acc \<Longrightarrow> clean (butlast acc)"
  by (auto simp: clean_def dest: in_set_butlastD)

lemma clean_snoc:
  "clean acc \<Longrightarrow> c \<noteq> [] \<Longrightarrow> c \<noteq> ''.'' \<Longrightarrow> c \<noteq> ''..'' \<Longrightarrow> noslash c \<Longrightarrow> clean (acc @ [c])"
  by (auto simp: clean_def)

lemma clean_last: "clean acc \<Longrightarrow> acc \<noteq> [] \<Longrightarrow> last acc \<noteq> ''..''"
  by (metis clean_def last_in_set)

lemma norm_comps_clean:
  assumes "0 < ini" and "clean acc" and "\<forall>c \<in> set cs. noslash c"
  shows "clean (norm_comps ini acc cs)"
  using assms(2,3)
proof (induction cs arbitrary: acc)
  case Nil
  then show ?case by simp
next
  case (Cons c cs)
  from Cons.prems(2) have rest: "\<forall>c \<in> set cs. noslash c" and nc: "noslash c" by simp_all
  show ?case
  proof (cases "c = [] \<or> c = ''.''")
    case True
    with Cons.IH [OF Cons.prems(1) rest] show ?thesis by auto
  next
    case False
    show ?thesis
    proof (cases "c = ''..''")
      case True
      have "clean (butlast acc)" using Cons.prems(1) by (rule clean_butlast)
      from Cons.IH [OF this rest] Cons.IH [OF Cons.prems(1) rest] True assms(1)
        clean_last [OF Cons.prems(1)]
      show ?thesis by auto
    next
      case notdd: False
      have "clean (acc @ [c])" using Cons.prems(1) False notdd nc by (auto intro: clean_snoc)
      from Cons.IH [OF this rest] False notdd show ?thesis by auto
    qed
  qed
qed

lemma norm_comps_fix:
  assumes "0 < ini" and "clean cs"
  shows "norm_comps ini acc cs = acc @ cs"
  using assms(2)
proof (induction cs arbitrary: acc)
  case Nil
  then show ?case by simp
next
  case (Cons c cs)
  from Cons.prems have c: "c \<noteq> []" "c \<noteq> ''.''" "c \<noteq> ''..''" and rest: "clean cs"
    by (auto simp: clean_def)
  from Cons.IH [OF rest, of "acc @ [c]"] c show ?case by simp
qed

lemma normpath_slashes:
  "normpath p =
     (if p = [] then ''.''
      else let q = replicate (slashes p) (CHR ''/'') @ join_sep (norm_comps (slashes p) [] (split_sep p))
           in if q = [] then ''.'' else q)"
  by (simp add: normpath_def slashes_def Let_def)

lemma slashes_abs: "startswith p ''/'' \<Longrightarrow> slashes p = 1 \<or> slashes p = 2"
  by (simp add: slashes_def)

lemma clean_nonempty: "clean cs \<Longrightarrow> \<forall>c \<in> set cs. c \<noteq> [] \<and> noslash c"
  by (simp add: clean_def)

lemma join_clean_no_slash_head:
  assumes "clean cs"
  shows "\<not> startswith (join_sep cs) ''/''"
proof (cases "cs = []")
  case True
  then show ?thesis by simp
next
  case False
  from join_sep_head [OF False clean_nonempty [OF assms]]
  show ?thesis by (cases "join_sep cs") auto
qed

lemma slashes_form:
  assumes "clean cs" and "ini = 1 \<or> ini = 2"
  shows "slashes (replicate ini (CHR ''/'') @ join_sep cs) = ini"
proof -
  from join_clean_no_slash_head [OF assms(1)] have h: "\<not> startswith (join_sep cs) ''/''" .
  from assms(2) show ?thesis
  proof
    assume "ini = 1"
    with h show ?thesis by (simp add: slashes_def)
  next
    assume "ini = 2"
    then have "replicate ini (CHR ''/'') = ''//''" by (simp add: numeral_2_eq_2)
    with h \<open>ini = 2\<close> show ?thesis by (simp add: slashes_def)
  qed
qed

lemma split_form:
  assumes "clean cs" and "ini = 1 \<or> ini = 2"
  shows "norm_comps ini [] (split_sep (replicate ini (CHR ''/'') @ join_sep cs)) = cs"
proof -
  have pos: "0 < ini" using assms(2) by auto
  have tail: "norm_comps ini [] (split_sep (join_sep cs)) = cs"
  proof (cases "cs = []")
    case True
    then show ?thesis by simp
  next
    case False
    have "split_sep (join_sep cs) = cs"
      using False clean_nonempty [OF assms(1)] by (intro split_join) auto
    with norm_comps_fix [OF pos assms(1), of "[]"] show ?thesis by simp
  qed
  from assms(2) show ?thesis
  proof
    assume "ini = 1"
    with tail show ?thesis by simp
  next
    assume "ini = 2"
    then have "replicate ini (CHR ''/'') = ''//''" by (simp add: numeral_2_eq_2)
    with tail show ?thesis by simp
  qed
qed

lemma normpath_form_fix:
  assumes "clean cs" and "ini = 1 \<or> ini = 2"
  shows "normpath (replicate ini (CHR ''/'') @ join_sep cs) = replicate ini (CHR ''/'') @ join_sep cs"
proof -
  let ?q = "replicate ini (CHR ''/'') @ join_sep cs"
  have ne: "?q \<noteq> []" using assms(2) by auto
  show ?thesis
    unfolding normpath_slashes slashes_form [OF assms] split_form [OF assms]
    using ne by (simp add: Let_def)
qed

lemma normpath_abs_form:
  assumes "startswith p ''/''"
  shows "\<exists>ini cs. (ini = 1 \<or> ini = 2) \<and> clean cs
           \<and> cs = norm_comps ini [] (split_sep p)
           \<and> normpath p = replicate ini (CHR ''/'') @ join_sep cs"
proof -
  let ?ini = "slashes p"
  let ?cs = "norm_comps ?ini [] (split_sep p)"
  have ini: "?ini = 1 \<or> ?ini = 2" using assms by (rule slashes_abs)
  then have pos: "0 < ?ini" by auto
  have "clean ?cs"
    using pos by (rule norm_comps_clean) (auto simp: clean_def dest: split_sep_noslash)
  moreover have "p \<noteq> []" using assms by auto
  moreover have "replicate ?ini (CHR ''/'') @ join_sep ?cs \<noteq> []" using ini by auto
  ultimately show ?thesis
    using ini by (auto simp: normpath_slashes Let_def)
qed

lemma normpath_abs_idem:
  assumes "startswith p ''/''"
  shows "normpath (normpath p) = normpath p \<and> startswith (normpath p) ''/''"
proof -
  from normpath_abs_form [OF assms] obtain ini cs where
    f: "ini = 1 \<or> ini = 2" "clean cs" "normpath p = replicate ini (CHR ''/'') @ join_sep cs"
    by blast
  have "startswith (replicate ini (CHR ''/'') @ join_sep cs) ''/''"
    using f(1) by (auto simp: numeral_2_eq_2)
  with normpath_form_fix [OF f(2,1)] f(3) show ?thesis by simp
qed

subsection \<open>Resolution follows normalisation\<close>

lemma lookup_append:
  "lookup r (xs @ ys) = (case lookup r xs of None \<Rightarrow> None | Some m \<Rightarrow> lookup m ys)"
proof (induction xs arbitrary: r)
  case Nil
  then show ?case by simp
next
  case (Cons x xs)
  then show ?case by (cases r) (auto split: option.splits)
qed

lemma lookup_butlast:
  assumes "lookup r pos = Some n"
  shows "\<exists>m. lookup r (butlast pos) = Some m"
proof (cases "pos = []")
  case True
  with assms show ?thesis by simp
next
  case False
  then have "pos = butlast pos @ [last pos]" by simp
  then have "lookup r (butlast pos @ [last pos]) = Some n" using assms by simp
  then show ?thesis by (auto simp: lookup_append split: option.splits)
qed

lemma lookup_snoc_child:
  assumes "lookup r pos = Some (Dir nm st rm ls es)" and "child es c = Some m"
  shows "lookup r (pos @ [c]) = Some m"
  using assms by (simp add: lookup_append)

lemma resolve_from_append:
  "resolve_from r pos (xs @ ys) =
     (case resolve_from r pos xs of None \<Rightarrow> None | Some q \<Rightarrow> resolve_from r q ys)"
proof (induction xs arbitrary: pos)
  case Nil
  then show ?case by simp
next
  case (Cons x xs)
  then show ?case by (auto split: option.splits node.splits)
qed

lemma resolve_from_dir:
  assumes "resolve_from r pos (c # cs) = Some q"
  shows "\<exists>nm st rm ls es. lookup r pos = Some (Dir nm st rm ls es)"
  using assms by (auto split: option.splits node.splits)

lemma resolve_from_cases [consumes 1, case_names stay up down]:
  assumes "resolve_from r pos (c # cs) = Some q"
  obtains (stay) "c = [] \<or> c = ''.''" "resolve_from r pos cs = Some q"
  | (up) "c = ''..''" "resolve_from r (butlast pos) cs = Some q"
  | (down) nm st rm ls es m where "lookup r pos = Some (Dir nm st rm ls es)"
      "c \<noteq> []" "c \<noteq> ''.''" "c \<noteq> ''..''" "child es c = Some m"
      "resolve_from r (pos @ [c]) cs = Some q"
  using assms by (auto split: option.splits node.splits if_splits)

lemma resolve_norm:
  assumes "resolve_from r pos comps = Some q" and "clean pos"
    and "\<forall>c \<in> set comps. noslash c" and "0 < ini"
  shows "norm_comps ini pos comps = q \<and> clean q"
  using assms(1,2,3)
proof (induction comps arbitrary: pos)
  case Nil
  then show ?case by simp
next
  case (Cons c cs)
  from Cons.prems(3) have rest: "\<forall>c \<in> set cs. noslash c" and nc: "noslash c" by simp_all
  from Cons.prems(1) show ?case
  proof (cases rule: resolve_from_cases)
    case stay
    from Cons.IH [OF stay(2) Cons.prems(2) rest] stay(1) show ?thesis by auto
  next
    case up
    have "clean (butlast pos)" using Cons.prems(2) by (rule clean_butlast)
    from Cons.IH [OF up(2) this rest] have r: "norm_comps ini (butlast pos) cs = q \<and> clean q" .
    show ?thesis
    proof (cases "pos = []")
      case True
      with r up(1) assms(4) show ?thesis by simp
    next
      case False
      with clean_last [OF Cons.prems(2)] have "last pos \<noteq> ''..''" by simp
      with r up(1) assms(4) False show ?thesis by simp
    qed
  next
    case (down nm st rm ls es m)
    have "clean (pos @ [c])" using Cons.prems(2) down(2,3,4) nc by (rule clean_snoc)
    from Cons.IH [OF down(6) this rest] down(2,3,4) show ?thesis by simp
  qed
qed

lemma resolve_lookup:
  assumes "resolve_from r pos comps = Some q" and "lookup r pos \<noteq> None"
  shows "lookup r q \<noteq> None"
  using assms
proof (induction comps arbitrary: pos)
  case Nil
  then show ?case by simp
next
  case (Cons c cs)
  from resolve_from_dir [OF Cons.prems(1)] obtain nm0 st0 rm0 ls0 es0 where
    here: "lookup r pos = Some (Dir nm0 st0 rm0 ls0 es0)" by blast
  from Cons.prems(1) show ?case
  proof (cases rule: resolve_from_cases)
    case stay
    from Cons.IH [OF stay(2) Cons.prems(2)] show ?thesis .
  next
    case up
    from lookup_butlast [OF here] have "lookup r (butlast pos) \<noteq> None" by auto
    from Cons.IH [OF up(2) this] show ?thesis .
  next
    case (down nm st rm ls es m)
    from lookup_snoc_child [OF down(1,5)] have "lookup r (pos @ [c]) \<noteq> None" by simp
    from Cons.IH [OF down(6) this] show ?thesis .
  qed
qed

lemma resolve_clean:
  assumes "clean cs" and "lookup r (pos @ cs) = Some n"
  shows "resolve_from r pos cs = Some (pos @ cs)"
  using assms
proof (induction cs arbitrary: pos)
  case Nil
  then show ?case by simp
next
  case (Cons c cs)
  from Cons.prems(1) have c: "c \<noteq> []" "c \<noteq> ''.''" "c \<noteq> ''..''" and rest: "clean cs"
    by (auto simp: clean_def)
  from Cons.prems(2) obtain m where m: "lookup r pos = Some m" "lookup m (c # cs) = Some n"
    by (auto simp: lookup_append split: option.splits)
  then obtain nm st rm ls es m' where d: "m = Dir nm st rm ls es" "child es c = Some m'"
    by (cases m) (auto split: option.splits)
  from Cons.prems(2) have "lookup r ((pos @ [c]) @ cs) = Some n" by simp
  from Cons.IH [OF rest this] m(1) d c show ?case by simp
qed

lemma split_sep_slashes:
  "split_sep (CHR ''/'' # s) = [] # split_sep s"
  by simp

lemma resolve_normpath:
  assumes "startswith p ''/''" and "resolve_from r [] (split_sep p) = Some q"
  shows "resolve_from r [] (split_sep (normpath p)) = Some q"
proof -
  from normpath_abs_form [OF assms(1)] obtain ini cs where
    f: "ini = 1 \<or> ini = 2" "cs = norm_comps ini [] (split_sep p)"
       "normpath p = replicate ini (CHR ''/'') @ join_sep cs"
    by blast
  have pos: "0 < ini" using f(1) by auto
  have "clean []" by (simp add: clean_def)
  with resolve_norm [OF assms(2) _ _ pos] have q: "cs = q" "clean q"
    using f(2) by (auto dest: split_sep_noslash)
  from assms(1) obtain t where t: "p = CHR ''/'' # t" by (auto simp: startswith_slash_iff)
  with assms(2) have "resolve_from r [] ([] # split_sep t) = Some q" by simp
  from resolve_from_dir [OF this] obtain nm st rm ls es where
    root: "lookup r [] = Some (Dir nm st rm ls es)" by blast
  then have "lookup r [] \<noteq> None" by simp
  from resolve_lookup [OF assms(2) this] obtain n where n: "lookup r ([] @ q) = Some n" by auto
  have tail: "resolve_from r [] (split_sep (join_sep q)) = Some q"
  proof (cases "q = []")
    case True
    with root show ?thesis by simp
  next
    case False
    have "split_sep (join_sep q) = q"
      using False clean_nonempty [OF q(2)] by (intro split_join) auto
    with resolve_clean [OF q(2) n] show ?thesis by simp
  qed
  have skip: "resolve_from r [] ([] # xs) = resolve_from r [] xs" for xs
    using root by simp
  from f(1) show ?thesis
  proof
    assume "ini = 1"
    with tail skip show ?thesis by (simp add: f(3) q(1))
  next
    assume "ini = 2"
    then have "replicate ini (CHR ''/'') = ''//''" by (simp add: numeral_2_eq_2)
    with tail skip show ?thesis by (simp add: f(3) q(1))
  qed
qed

lemma endswith_slash: "endswith d ''/'' \<Longrightarrow> \<exists>d'. d = d' @ ''/''"
  by (metis append_take_drop_id endswith_def)

lemma join_relative:
  assumes "\<not> startswith p ''/''" and "startswith d ''/''"
  shows "startswith (join d p) ''/''"
    and "\<exists>d'. join d p = d' @ CHR ''/'' # p \<and> (split_sep d = split_sep d' \<or> split_sep d = split_sep d' @ [[]])"
proof -
  from assms(2) obtain t where t: "d = CHR ''/'' # t" by (auto simp: startswith_slash_iff)
  show "startswith (join d p) ''/''"
    using assms(1) t by (simp add: join_def)
  show "\<exists>d'. join d p = d' @ CHR ''/'' # p \<and> (split_sep d = split_sep d' \<or> split_sep d = split_sep d' @ [[]])"
  proof (cases "endswith d ''/''")
    case True
    from endswith_slash [OF this] obtain d' where d': "d = d' @ ''/''" by blast
    have "split_sep (d' @ CHR ''/'' # []) = split_sep d' @ [[]]"
      by (simp only: split_sep_slash split_sep.simps)
    then have sp: "split_sep d = split_sep d' @ [[]]" using d' by simp
    have "d \<noteq> []" using t by simp
    with True assms(1) have "join d p = d @ p" by (simp add: join_def)
    then have "join d p = d' @ CHR ''/'' # p" using d' by simp
    with sp show ?thesis by blast
  next
    case False
    with assms(1) t have "join d p = d @ CHR ''/'' # p" by (simp add: join_def)
    then show ?thesis by blast
  qed
qed

lemma resolve_from_trailing:
  assumes "resolve_from r pos (xs @ [[]]) = Some q"
  shows "resolve_from r pos xs = Some q"
  using assms by (auto simp: resolve_from_append split: option.splits node.splits)

lemma resolve_abspath:
  assumes "\<forall>d. cwd w = Some d \<longrightarrow> startswith d ''/''" and "resolve w p = Some q"
  shows "\<exists>a. abspath (cwd w) p = Some a \<and> resolve w a = Some q"
proof (cases "startswith p ''/''")
  case True
  then have ne: "p \<noteq> []" by auto
  with assms(2) True have "resolve_from (root w) [] (split_sep p) = Some q"
    by (simp add: resolve_def)
  from resolve_normpath [OF True this]
  have "resolve_from (root w) [] (split_sep (normpath p)) = Some q" .
  moreover from normpath_abs_idem [OF True] have "startswith (normpath p) ''/''" by simp
  moreover then have "normpath p \<noteq> []" by auto
  ultimately have "resolve w (normpath p) = Some q" by (simp add: resolve_def)
  with True show ?thesis by (simp add: abspath_def)
next
  case False
  from assms(2) have ne: "p \<noteq> []" by (auto simp: resolve_def)
  with assms(2) False obtain d pos where
    d: "cwd w = Some d" "resolve_from (root w) [] (split_sep d) = Some pos"
       "resolve_from (root w) pos (split_sep p) = Some q"
    by (auto simp: resolve_def split: option.splits)
  from assms(1) d(1) have dabs: "startswith d ''/''" by blast
  from join_relative [OF False dabs] obtain d' where
    full: "startswith (join d p) ''/''" "join d p = d' @ CHR ''/'' # p"
      "split_sep d = split_sep d' \<or> split_sep d = split_sep d' @ [[]]"
    by blast
  from full(3) d(2) have "resolve_from (root w) [] (split_sep d') = Some pos"
    by (auto dest: resolve_from_trailing)
  with d(3) have "resolve_from (root w) [] (split_sep (join d p)) = Some q"
    by (simp add: full(2) split_sep_slash resolve_from_append)
  from resolve_normpath [OF full(1) this]
  have "resolve_from (root w) [] (split_sep (normpath (join d p))) = Some q" .
  moreover from normpath_abs_idem [OF full(1)] have "startswith (normpath (join d p)) ''/''"
    by simp
  moreover then have "normpath (join d p) \<noteq> []" by auto
  ultimately have "resolve w (normpath (join d p)) = Some q" by (simp add: resolve_def)
  with False d(1) show ?thesis by (simp add: abspath_def)
qed

lemma abspath_normal:
  assumes "\<forall>d. cwd w = Some d \<longrightarrow> startswith d ''/''" and "abspath (cwd w) p = Some a"
  shows "startswith a ''/'' \<and> normpath a = a"
proof (cases "startswith p ''/''")
  case True
  with assms(2) normpath_abs_idem [OF True] show ?thesis by (auto simp: abspath_def)
next
  case False
  with assms(2) obtain d where d: "cwd w = Some d" "a = normpath (join d p)"
    by (auto simp: abspath_def split: option.splits)
  from assms(1) d(1) have "startswith d ''/''" by blast
  from join_relative(1) [OF False this] have "startswith (join d p) ''/''" .
  from normpath_abs_idem [OF this] d(2) show ?thesis by simp
qed

lemma exists_abspath:
  assumes "\<forall>d. cwd w = Some d \<longrightarrow> startswith d ''/''" and "exists w p"
  shows "\<exists>a. abspath (cwd w) p = Some a \<and> exists w a"
proof -
  from assms(2) obtain q where q: "resolve w p = Some q"
    by (auto simp: exists_def os_stat_def node_at_def split: option.splits sum.splits)
  from resolve_abspath [OF assms(1) q] obtain a where
    a: "abspath (cwd w) p = Some a" "resolve w a = Some q" by blast
  from q a(2) have "os_stat w a = os_stat w p" by (simp add: os_stat_def node_at_def)
  with assms(2) a(1) show ?thesis by (auto simp: exists_def)
qed

subsection \<open>The containment test on directories in normal form\<close>

lemma path_comps_plain:
  "c \<in> set (path_comps p) \<Longrightarrow> c \<noteq> [] \<and> noslash c"
  by (auto simp: path_comps_def dest: split_sep_noslash)

lemma common_prefix_is_prefix: "prefix (common_prefix xs ys) ys"
  by (induction xs ys rule: common_prefix.induct) auto

lemma common_prefix_eq: "common_prefix xs ys = ys \<longleftrightarrow> prefix ys xs"
  by (induction xs ys rule: common_prefix.induct) auto

lemma normal_abs_startswith: "normal_abs d \<Longrightarrow> startswith d ''/''"
  by (cases d) (auto simp: normal_abs_def)

lemma commonpath_inside:
  assumes "normal_abs d" and "startswith P ''/''"
  shows "commonpath P d = Some d \<longleftrightarrow> inside_dir P d"
proof -
  let ?cp = "common_prefix (path_comps P) (path_comps d)"
  have dform: "d = CHR ''/'' # join_sep (path_comps d)"
    using assms(1) by (simp add: normal_abs_def)
  have dabs: "startswith d ''/''" using assms(1) by (rule normal_abs_startswith)
  have cp: "commonpath P d = Some (CHR ''/'' # join_sep ?cp)"
    using assms(2) dabs by (simp add: commonpath_def)
  have plain_d: "\<forall>c \<in> set (path_comps d). c \<noteq> [] \<and> noslash c"
    using path_comps_plain by blast
  have "set ?cp \<subseteq> set (path_comps d)"
    using common_prefix_is_prefix [of "path_comps P" "path_comps d"] by (rule set_mono_prefix)
  with plain_d have plain_cp: "\<forall>c \<in> set ?cp. c \<noteq> [] \<and> noslash c" by blast
  have "commonpath P d = Some d \<longleftrightarrow> CHR ''/'' # join_sep ?cp = d"
    unfolding cp by simp
  also have "\<dots> \<longleftrightarrow> join_sep ?cp = join_sep (path_comps d)"
    by (subst dform) simp
  also have "\<dots> \<longleftrightarrow> ?cp = path_comps d"
    using join_sep_inj [OF plain_cp plain_d] by (auto intro: arg_cong)
  also have "\<dots> \<longleftrightarrow> inside_dir P d"
    by (simp add: common_prefix_eq inside_dir_def)
  finally show ?thesis .
qed

lemma inside_any_normal:
  assumes "startswith P ''/''" and "\<forall>d \<in> set ds. normal_abs d"
  shows "inside_any P ds = Inr (\<exists>d \<in> set ds. inside_dir P d)"
  using assms(2)
proof (induction ds)
  case Nil
  then show ?case by simp
next
  case (Cons d ds)
  then have d: "normal_abs d" and rest: "\<forall>d \<in> set ds. normal_abs d" by simp_all
  have "commonpath P d \<noteq> None"
    using assms(1) normal_abs_startswith [OF d] by (simp add: commonpath_def)
  then obtain c where c: "commonpath P d = Some c" by auto
  show ?case
  proof (cases "c = d")
    case True
    with c commonpath_inside [OF d assms(1)] have "inside_dir P d" by simp
    with c True show ?thesis by simp
  next
    case False
    with c commonpath_inside [OF d assms(1)] have "\<not> inside_dir P d" by simp
    with c False Cons.IH [OF rest] show ?thesis by simp
  qed
qed

lemma sample_dirs_normal:
  "\<forall>d \<in> set (download_dirs sample_scanner @ temp_dirs sample_scanner
               @ browser_cache_dirs sample_scanner). normal_abs d"
  by code_simp

lemma windows_dirs_normal:
  "\<forall>d \<in> set (download_dirs windows_scanner @ temp_dirs windows_scanner
               @ browser_cache_dirs windows_scanner). normal_abs d"
  by code_simp

lemma windows_scanner_init: "Scanner_init windows_world [] = Some windows_scanner"
  by code_simp

lemma slash_scanner_init: "Scanner_init sample_world [''/opt/''] = Some slash_scanner"
  by code_simp

lemma relative_scanner_init: "Scanner_init sample_world [''build''] = Some relative_scanner"
  by code_simp

section \<open>Files inside a download, temp or cache directory\<close>

text \<open>
  C8. The rule fails on the code for a temp directory that is not written in normal
  form. \<open>Scanner(extra_dirs=['/opt/'])\<close> makes \<open>/opt/\<close> a temp directory, and the walk
  of it yields \<open>/opt/tools/setup.exe\<close>: a file inside a temp directory, ten days old,
  not under the whitelist, with the dangerous suffix \<open>.exe\<close>. \<open>commonpath\<close> returns
  \<open>/opt\<close>, which is not the string \<open>/opt/\<close>, so the file is \<open>skipped\<close>, not \<open>harmful\<close>.
  With \<open>Scanner(extra_dirs=['build'])\<close> the file \<open>build/setup.exe\<close> of the relative
  temp directory makes \<open>commonpath\<close> raise, and the walker records \<open>skipped\<close>.
\<close>

theorem dangerous_file_in_temp_directory_skipped:
  "Scanner_init sample_world [''/opt/''] = Some slash_scanner
   \<and> ''/opt/'' \<in> set (temp_dirs slash_scanner)
   \<and> ''/opt/tools/setup.exe'' \<in> set (walk_files sample_world ''/opt/'')
   \<and> inside_dir ''/opt/tools/setup.exe'' ''/opt/''
   \<and> os_stat sample_world ''/opt/tools/setup.exe'' = Inr (136000, 5000)
   \<and> \<not> is_under_whitelist slash_scanner sample_world ''/opt/tools/setup.exe''
   \<and> \<not> (now sample_world - 136000 < real_of_int 86400)
   \<and> lower (suffix_of ''/opt/tools/setup.exe'') = ''.exe''
   \<and> classify_file slash_scanner sample_world ''/opt/tools/setup.exe'' (Some 86400) (Some 1024)
       = Inr (Some ''skipped'')
   \<and> Scanner_init sample_world [''build''] = Some relative_scanner
   \<and> ''build'' \<in> set (temp_dirs relative_scanner)
   \<and> ''build/setup.exe'' \<in> set (walk_files sample_world ''build'')
   \<and> classify_file relative_scanner sample_world ''build/setup.exe'' (Some 86400) (Some 1024)
       = Inl ValueError
   \<and> classify_caught relative_scanner sample_world ''build/setup.exe'' (Some 86400) (Some 1024)
       = Some ''skipped''"
proof -
  have "''/opt/'' \<in> set (temp_dirs slash_scanner)"
    by (simp add: slash_scanner_def)
  moreover have "''/opt/tools/setup.exe'' \<in> set (walk_files sample_world ''/opt/'')"
    by code_simp
  moreover have "inside_dir ''/opt/tools/setup.exe'' ''/opt/''"
    by code_simp
  moreover have "\<not> is_under_whitelist slash_scanner sample_world ''/opt/tools/setup.exe''"
    by code_simp
  moreover have "classify_file slash_scanner sample_world ''/opt/tools/setup.exe''
      (Some 86400) (Some 1024) = Inr (Some ''skipped'')"
    by code_simp
  moreover have "''build'' \<in> set (temp_dirs relative_scanner)"
    by (simp add: relative_scanner_def)
  moreover have "''build/setup.exe'' \<in> set (walk_files sample_world ''build'')"
    by code_simp
  moreover have "classify_file relative_scanner sample_world ''build/setup.exe''
      (Some 86400) (Some 1024) = Inl ValueError"
    by code_simp
  moreover have "classify_caught relative_scanner sample_world ''build/setup.exe''
      (Some 86400) (Some 1024) = Some ''skipped''"
    by code_simp
  ultimately show ?thesis
    using slash_scanner_init relative_scanner_init stat_opt_setup
    by (simp add: sample_now suffix_setup)
qed

text \<open>
  C9, as amended. For a file with readable metadata that is not under the whitelist, not
  younger than the age threshold, and whose lower-cased suffix is in none of the three
  extension sets. When \<open>size_threshold_bytes\<close> is \<open>None\<close> or zero, the file gets no
  category. When \<open>size_threshold_bytes\<close> is a number other than zero, the size is at
  least \<open>max(size_threshold_bytes, 20 MiB)\<close>, and the path of the file and every
  download, temp and browser-cache directory are absolute and in normal form: the result
  is \<open>large\<close> if the file is inside a download or temp directory, \<open>junk\<close> if it is inside
  a browser-cache directory and inside no download or temp directory, and no category
  otherwise.
\<close>

theorem large_file_fallback:
  assumes "os_stat w P = Inr (mtime, sz)"
    and "\<not> is_under_whitelist s w P"
    and "\<forall>a. age_seconds = Some a \<longrightarrow> \<not> (now w - mtime < real_of_int a)"
    and "lower (suffix_of P) \<notin> potentially_dangerous_extensions s"
    and "lower (suffix_of P) \<notin> suspicious_script_extensions s"
    and "lower (suffix_of P) \<notin> junk_extensions s"
  shows "(size_threshold_bytes = None \<or> size_threshold_bytes = Some 0 \<longrightarrow>
            classify_file s w P age_seconds size_threshold_bytes = Inr None)
         \<and> (normal_abs P
              \<and> (\<forall>d \<in> set (download_dirs s @ temp_dirs s @ browser_cache_dirs s). normal_abs d)
              \<longrightarrow>
              (\<forall>t. size_threshold_bytes = Some t \<and> t \<noteq> 0 \<and> max t (20 * 1024 * 1024) \<le> sz \<longrightarrow>
                 classify_file s w P age_seconds size_threshold_bytes =
                   Inr (if \<exists>d \<in> set (download_dirs s @ temp_dirs s). inside_dir P d
                        then Some ''large''
                        else if \<exists>d \<in> set (browser_cache_dirs s). inside_dir P d
                        then Some ''junk'' else None)))"
proof -
  have young: "\<not> (case age_seconds of None \<Rightarrow> False | Some a \<Rightarrow> now w - mtime < real_of_int a)"
    using assms(3) by (cases age_seconds) auto
  note fallback = classify_file_fallback [OF assms(1,2) young assms(4,5,6)]
  have unset: "size_threshold_bytes = None \<or> size_threshold_bytes = Some 0 \<longrightarrow>
      classify_file s w P age_seconds size_threshold_bytes = Inr None"
    unfolding fallback by auto
  have located: "classify_file s w P age_seconds size_threshold_bytes =
      Inr (if \<exists>d \<in> set (download_dirs s @ temp_dirs s). inside_dir P d then Some ''large''
           else if \<exists>d \<in> set (browser_cache_dirs s). inside_dir P d then Some ''junk''
           else None)"
    if normal: "normal_abs P"
      "\<forall>d \<in> set (download_dirs s @ temp_dirs s @ browser_cache_dirs s). normal_abs d"
    and size: "size_threshold_bytes = Some t \<and> t \<noteq> 0 \<and> max t (20 * 1024 * 1024) \<le> sz"
    for t
  proof -
    have abs: "startswith P ''/''" using normal(1) by (rule normal_abs_startswith)
    have "\<forall>d \<in> set (download_dirs s @ temp_dirs s). normal_abs d"
      using normal(2) by auto
    from inside_any_normal [OF abs this]
    have outer: "inside_any P (download_dirs s @ temp_dirs s)
        = Inr (\<exists>d \<in> set (download_dirs s @ temp_dirs s). inside_dir P d)" .
    have "\<forall>d \<in> set (browser_cache_dirs s). normal_abs d"
      using normal(2) by auto
    from inside_any_normal [OF abs this]
    have cache: "inside_any P (browser_cache_dirs s)
        = Inr (\<exists>d \<in> set (browser_cache_dirs s). inside_dir P d)" .
    show ?thesis
      unfolding fallback outer cache using size by simp
  qed
  from unset located show ?thesis by blast
qed

lemma windows_data_stat:
  "os_stat windows_world ''/Users/u/AppData/Local/Google/Chrome/User Data/Default/Cache/data_1''
     = Inr (136000, 31457280)"
  by code_simp

lemma windows_data_free:
  "\<not> is_under_whitelist windows_scanner windows_world
       ''/Users/u/AppData/Local/Google/Chrome/User Data/Default/Cache/data_1''"
  by code_simp

lemma windows_data_plain:
  "lower (suffix_of ''/Users/u/AppData/Local/Google/Chrome/User Data/Default/Cache/data_1'')
     \<notin> potentially_dangerous_extensions windows_scanner"
  "lower (suffix_of ''/Users/u/AppData/Local/Google/Chrome/User Data/Default/Cache/data_1'')
     \<notin> suspicious_script_extensions windows_scanner"
  "lower (suffix_of ''/Users/u/AppData/Local/Google/Chrome/User Data/Default/Cache/data_1'')
     \<notin> junk_extensions windows_scanner"
  by code_simp+

lemma windows_now: "now windows_world = 1000000"
  by (simp add: windows_world_def)

theorem large_file_fallback_witness:
  "os_stat sample_world ''/tmp/big.iso'' = Inr (136000, 31457280)
   \<and> \<not> is_under_whitelist sample_scanner sample_world ''/tmp/big.iso''
   \<and> \<not> (now sample_world - 136000 < real_of_int 86400)
   \<and> lower (suffix_of ''/tmp/big.iso'') = ''.iso''
   \<and> normal_abs ''/tmp/big.iso''
   \<and> inside_dir ''/tmp/big.iso'' ''/tmp''
   \<and> classify_file sample_scanner sample_world ''/tmp/big.iso'' (Some 86400) (Some 1024)
       = Inr (Some ''large'')
   \<and> classify_file sample_scanner sample_world ''/tmp/big.iso'' (Some 86400) None = Inr None
   \<and> Scanner_init windows_world [] = Some windows_scanner
   \<and> os_stat windows_world
         ''/Users/u/AppData/Local/Google/Chrome/User Data/Default/Cache/data_1''
       = Inr (136000, 31457280)
   \<and> inside_dir ''/Users/u/AppData/Local/Google/Chrome/User Data/Default/Cache/data_1''
         windows_cache
   \<and> classify_file windows_scanner windows_world
         ''/Users/u/AppData/Local/Google/Chrome/User Data/Default/Cache/data_1''
         (Some 86400) (Some 1024)
       = Inr (Some ''junk'')"
proof -
  let ?data = "''/Users/u/AppData/Local/Google/Chrome/User Data/Default/Cache/data_1''"
  have age: "\<forall>a. Some (86400::int) = Some a \<longrightarrow> \<not> (now sample_world - 136000 < real_of_int a)"
    by (simp add: sample_now)
  have wage: "\<forall>a. Some (86400::int) = Some a \<longrightarrow> \<not> (now windows_world - 136000 < real_of_int a)"
    by (simp add: windows_now)
  have ext:
    "lower (suffix_of ''/tmp/big.iso'') \<notin> potentially_dangerous_extensions sample_scanner"
    "lower (suffix_of ''/tmp/big.iso'') \<notin> suspicious_script_extensions sample_scanner"
    "lower (suffix_of ''/tmp/big.iso'') \<notin> junk_extensions sample_scanner"
    by (simp_all add: suffix_big sample_iso_plain)
  have n1: "normal_abs ''/tmp/big.iso''" by code_simp
  have n2: "normal_abs ?data" by code_simp
  have i1: "\<exists>d \<in> set (download_dirs sample_scanner @ temp_dirs sample_scanner).
      inside_dir ''/tmp/big.iso'' d"
    by code_simp
  have i2: "\<not> (\<exists>d \<in> set (download_dirs windows_scanner @ temp_dirs windows_scanner).
      inside_dir ?data d)"
    by code_simp
  have i3: "\<exists>d \<in> set (browser_cache_dirs windows_scanner). inside_dir ?data d"
    by code_simp
  have i4: "inside_dir ''/tmp/big.iso'' ''/tmp''" by code_simp
  have i5: "inside_dir ?data windows_cache" by code_simp
  have size: "max (1024::int) (20 * 1024 * 1024) \<le> 31457280" by simp
  note sample = large_file_fallback [OF stat_big not_whitelisted_big age ext]
  note windows = large_file_fallback [OF windows_data_stat windows_data_free wage
      windows_data_plain]
  have "classify_file sample_scanner sample_world ''/tmp/big.iso'' (Some 86400) (Some 1024)
          = Inr (Some ''large'')"
    using sample [of "Some 1024"] n1 sample_dirs_normal i1 size by simp
  moreover have "classify_file sample_scanner sample_world ''/tmp/big.iso'' (Some 86400) None
          = Inr None"
    using sample [of None] by simp
  moreover have "classify_file windows_scanner windows_world ?data (Some 86400) (Some 1024)
          = Inr (Some ''junk'')"
    using windows [of "Some 1024"] n2 windows_dirs_normal i2 i3 size by simp
  ultimately show ?thesis
    using stat_big not_whitelisted_big n1 i4 i5 windows_scanner_init windows_data_stat
    by (simp add: sample_now suffix_big)
qed

text \<open>
  C9 as stated fails: \<open>size_threshold_bytes = 0\<close> is an integer the interface allows,
  and the 30 MiB file \<open>/tmp/big.iso\<close>, ten days old, inside the temp directory \<open>/tmp\<close>,
  has at least \<open>max(0, 20 MiB)\<close> bytes, but the test \<open>if size_threshold_bytes and ...\<close>
  is false for zero and the file gets no category.
\<close>

theorem large_file_zero_threshold_counterexample:
  "os_stat sample_world ''/tmp/big.iso'' = Inr (136000, 31457280)
   \<and> \<not> is_under_whitelist sample_scanner sample_world ''/tmp/big.iso''
   \<and> \<not> (now sample_world - 136000 < real_of_int 86400)
   \<and> lower (suffix_of ''/tmp/big.iso'') = ''.iso''
   \<and> ''.iso'' \<notin> potentially_dangerous_extensions sample_scanner
   \<and> ''.iso'' \<notin> suspicious_script_extensions sample_scanner
   \<and> ''.iso'' \<notin> junk_extensions sample_scanner
   \<and> (31457280::int) \<ge> max 0 (20 * 1024 * 1024)
   \<and> inside_any ''/tmp/big.iso'' (download_dirs sample_scanner @ temp_dirs sample_scanner)
       = Inr True
   \<and> classify_file sample_scanner sample_world ''/tmp/big.iso'' (Some 86400) (Some 0)
       = Inr None"
proof -
  have ext:
    "lower (suffix_of ''/tmp/big.iso'') \<notin> potentially_dangerous_extensions sample_scanner"
    "lower (suffix_of ''/tmp/big.iso'') \<notin> suspicious_script_extensions sample_scanner"
    "lower (suffix_of ''/tmp/big.iso'') \<notin> junk_extensions sample_scanner"
    by (simp_all add: suffix_big sample_iso_plain)
  have "classify_file sample_scanner sample_world ''/tmp/big.iso'' (Some 86400) (Some 0)
          = Inr None"
    by (subst classify_file_fallback [OF stat_big not_whitelisted_big sample_big_old ext])
       simp
  then show ?thesis
    using stat_big not_whitelisted_big inside_big
    by (simp add: sample_now suffix_big sample_iso_plain)
qed

section \<open>Whitelist well-formedness\<close>

lemma Optimizer_whitelist_image:
  assumes "\<forall>d. cwd w = Some d \<longrightarrow> startswith d ''/''"
  shows "Optimizer_get_whitelist_paths w =
           Some ((\<lambda>p. the (abspath (cwd w) p)) ` {p \<in> configured_whitelist w. exists w p})"
proof -
  have "\<not> (\<exists>p \<in> {p \<in> configured_whitelist w. exists w p}. abspath (cwd w) p = None)"
    using exists_abspath [OF assms] by fastforce
  then show ?thesis
    unfolding Optimizer_get_whitelist_paths_def Let_def by (simp only: if_False)
qed

lemma Scanner_whitelist_image:
  assumes "Scanner_get_whitelist_paths w = Some wl"
  shows "wl = (\<lambda>p. the (abspath (cwd w) p)) ` {p \<in> configured_whitelist w. p \<noteq> []}
         \<and> (\<forall>p \<in> {p \<in> configured_whitelist w. p \<noteq> []}. abspath (cwd w) p \<noteq> None)"
  using assms unfolding Scanner_get_whitelist_paths_def Let_def
  by (auto split: if_splits)


text \<open>
  C5, as amended. On every host, for every value of \<open>platform.system()\<close> and of the
  environment, where the working directory that \<open>os.getcwd()\<close> returns is an absolute
  path: \<open>Optimizer\<close> always builds its whitelist, and it is the set of the \<open>abspath\<close>
  forms of the configured paths that exist, so every path in it exists; \<open>Scanner\<close> builds
  its whitelist whenever \<open>os.getcwd()\<close> returns, and it is the set of the \<open>abspath\<close>
  forms of all configured paths that are not empty, whether they exist or not; in both
  sets every path is absolute and normalised (\<open>normpath\<close> leaves it unchanged).
\<close>

theorem whitelist_well_formed:
  assumes "\<forall>d. cwd w = Some d \<longrightarrow> startswith d ''/''"
  shows "(\<exists>wl. Optimizer_get_whitelist_paths w = Some wl
            \<and> (\<forall>a \<in> wl. exists w a \<and> startswith a ''/'' \<and> normpath a = a)
            \<and> (\<forall>a \<in> wl. \<exists>p \<in> configured_whitelist w. exists w p \<and> abspath (cwd w) p = Some a)
            \<and> (\<forall>p \<in> configured_whitelist w. exists w p \<longrightarrow>
                  (\<exists>a \<in> wl. abspath (cwd w) p = Some a)))
         \<and> (cwd w \<noteq> None \<longrightarrow> (\<exists>wl. Scanner_get_whitelist_paths w = Some wl))
         \<and> (\<forall>wl. Scanner_get_whitelist_paths w = Some wl \<longrightarrow>
              (\<forall>a \<in> wl. startswith a ''/'' \<and> normpath a = a)
              \<and> (\<forall>a \<in> wl. \<exists>p \<in> configured_whitelist w. p \<noteq> [] \<and> abspath (cwd w) p = Some a)
              \<and> (\<forall>p \<in> configured_whitelist w. p \<noteq> [] \<longrightarrow>
                    (\<exists>a \<in> wl. abspath (cwd w) p = Some a)))"
proof (intro conjI allI impI)
  let ?E = "{p \<in> configured_whitelist w. exists w p}"
  let ?wl = "(\<lambda>p. the (abspath (cwd w) p)) ` ?E"
  have img: "Optimizer_get_whitelist_paths w = Some ?wl"
    using assms by (rule Optimizer_whitelist_image)
  have each: "\<exists>a. abspath (cwd w) p = Some a \<and> exists w a" if "p \<in> ?E" for p
    using that exists_abspath [OF assms, of p] by simp
  have p1: "\<forall>a \<in> ?wl. exists w a \<and> startswith a ''/'' \<and> normpath a = a"
  proof
    fix a assume "a \<in> ?wl"
    then obtain p where p: "p \<in> ?E" "a = the (abspath (cwd w) p)" by blast
    from each [OF p(1)] p(2) have a: "abspath (cwd w) p = Some a" "exists w a" by auto
    from abspath_normal [OF assms a(1)] a(2)
    show "exists w a \<and> startswith a ''/'' \<and> normpath a = a" by simp
  qed
  have p2: "\<forall>a \<in> ?wl. \<exists>p \<in> configured_whitelist w. exists w p \<and> abspath (cwd w) p = Some a"
  proof
    fix a assume "a \<in> ?wl"
    then obtain p where p: "p \<in> ?E" "a = the (abspath (cwd w) p)" by blast
    from each [OF p(1)] p(2) have "abspath (cwd w) p = Some a" by auto
    with p(1) show "\<exists>p \<in> configured_whitelist w. exists w p \<and> abspath (cwd w) p = Some a"
      by blast
  qed
  have p3: "\<forall>p \<in> configured_whitelist w. exists w p \<longrightarrow> (\<exists>a \<in> ?wl. abspath (cwd w) p = Some a)"
  proof (intro ballI impI)
    fix p assume "p \<in> configured_whitelist w" "exists w p"
    then have "p \<in> ?E" by simp
    from each [OF this] obtain a where "abspath (cwd w) p = Some a" by blast
    with \<open>p \<in> ?E\<close> show "\<exists>a \<in> ?wl. abspath (cwd w) p = Some a" by force
  qed
  from img p1 p2 p3
  show "\<exists>wl. Optimizer_get_whitelist_paths w = Some wl
            \<and> (\<forall>a \<in> wl. exists w a \<and> startswith a ''/'' \<and> normpath a = a)
            \<and> (\<forall>a \<in> wl. \<exists>p \<in> configured_whitelist w. exists w p \<and> abspath (cwd w) p = Some a)
            \<and> (\<forall>p \<in> configured_whitelist w. exists w p \<longrightarrow>
                  (\<exists>a \<in> wl. abspath (cwd w) p = Some a))"
    by blast
next
  assume "cwd w \<noteq> None"
  then have "\<forall>p. abspath (cwd w) p \<noteq> None"
    by (auto simp: abspath_def)
  then show "\<exists>wl. Scanner_get_whitelist_paths w = Some wl"
    unfolding Scanner_get_whitelist_paths_def Let_def by simp
next
  fix wl assume s: "Scanner_get_whitelist_paths w = Some wl"
  let ?N = "{p \<in> configured_whitelist w. p \<noteq> []}"
  from Scanner_whitelist_image [OF s] have
    wl: "wl = (\<lambda>p. the (abspath (cwd w) p)) ` ?N"
    and some: "\<forall>p \<in> ?N. abspath (cwd w) p \<noteq> None"
    by blast+
  have origin: "\<exists>p \<in> configured_whitelist w. p \<noteq> [] \<and> abspath (cwd w) p = Some a"
    if "a \<in> wl" for a
  proof -
    from that wl obtain p where p: "p \<in> ?N" "a = the (abspath (cwd w) p)" by blast
    with some have "abspath (cwd w) p = Some a" by auto
    with p(1) show ?thesis by blast
  qed
  show "\<forall>a \<in> wl. startswith a ''/'' \<and> normpath a = a"
  proof
    fix a assume "a \<in> wl"
    from origin [OF this] obtain p where "abspath (cwd w) p = Some a" by blast
    from abspath_normal [OF assms this] show "startswith a ''/'' \<and> normpath a = a" .
  qed
  show "\<forall>a \<in> wl. \<exists>p \<in> configured_whitelist w. p \<noteq> [] \<and> abspath (cwd w) p = Some a"
    using origin by blast
  show "\<forall>p \<in> configured_whitelist w. p \<noteq> [] \<longrightarrow> (\<exists>a \<in> wl. abspath (cwd w) p = Some a)"
  proof (intro ballI impI)
    fix p assume "p \<in> configured_whitelist w" "p \<noteq> []"
    then have "p \<in> ?N" by simp
    with some obtain a where "abspath (cwd w) p = Some a" by auto
    with \<open>p \<in> ?N\<close> wl show "\<exists>a \<in> wl. abspath (cwd w) p = Some a" by force
  qed
qed

theorem whitelist_well_formed_witness:
  "cwd windows_world = Some ''/Users/u''
   \<and> startswith ''/Users/u'' ''/''
   \<and> ''/Windows/'' \<in> configured_whitelist windows_world
   \<and> Optimizer_get_whitelist_paths windows_world = Some {''/Windows''}
   \<and> exists windows_world ''/Windows''
   \<and> normpath ''/Windows'' = ''/Windows''
   \<and> Scanner_get_whitelist_paths windows_world =
       Some {''/Windows'', ''/Program Files'', ''/Program Files (x86)'',
             ''/Users/u/AppData/Roaming'', ''/Users/u/AppData/Local/Programs''}
   \<and> \<not> exists windows_world ''/Program Files''"
proof -
  have c: "cwd windows_world = Some ''/Users/u''"
    by (simp add: windows_world_def)
  then have h: "\<forall>d. cwd windows_world = Some d \<longrightarrow> startswith d ''/''"
    by simp
  have o: "Optimizer_get_whitelist_paths windows_world = Some {''/Windows''}"
    by code_simp
  from whitelist_well_formed [OF h] o
  have "exists windows_world ''/Windows'' \<and> normpath ''/Windows'' = ''/Windows''"
    by auto
  moreover have "''/Windows/'' \<in> configured_whitelist windows_world"
    by code_simp
  moreover have "Scanner_get_whitelist_paths windows_world =
       Some {''/Windows'', ''/Program Files'', ''/Program Files (x86)'',
             ''/Users/u/AppData/Roaming'', ''/Users/u/AppData/Local/Programs''}"
    by code_simp
  moreover have "\<not> exists windows_world ''/Program Files''"
    by code_simp
  ultimately show ?thesis using c o by simp
qed

text \<open>
  C5 as stated fails for \<open>Scanner\<close>: the sample host has no \<open>/lib64\<close>, and the whitelist
  \<open>Scanner\<close> builds there contains \<open>/lib64\<close>.
\<close>

theorem scanner_whitelist_missing_path_counterexample:
  "Scanner_get_whitelist_paths sample_world = Some linux_whitelist
   \<and> ''/lib64'' \<in> linux_whitelist
   \<and> \<not> exists sample_world ''/lib64''"
  using sample_Scanner_whitelist sample_exists(7) by (simp add: linux_whitelist_def)

end
